theory Spec2Isabelle
  imports Complex_Main "HOL-Library.Word" "HOL-Library.Log_Nat"
begin

section \<open>The INI settings store of JHEWProject (src/Settings.h, src/Settings.cpp)\<close>

text \<open>
  \<^verbatim>\<open>std::string\<close> is a sequence of bytes: \<^typ>\<open>string\<close>. \<^verbatim>\<open>std::wstring\<close> (the path) is a
  sequence of 16-bit code units on the platform the program is written for. \<^verbatim>\<open>int\<close> is a
  32-bit two's complement integer, read with \<^const>\<open>sint\<close>. The two-level
  \<^verbatim>\<open>std::unordered_map\<close> is a map of maps; \<^verbatim>\<open>file_time_type\<close> is a tick count.

  A \<^verbatim>\<open>double\<close> is an IEEE 754 binary64 value, given by the rational number it denotes, or an
  infinity, or a NaN. The two zeros, which compare equal, are one value here, and so are all
  NaNs.
\<close>

datatype double = Finite rat | PInf | NInf | NaN

type_synonym wstring = "16 word list"
type_synonym KV = "string \<rightharpoonup> string"
type_synonym file_time_type = int

record Settings =
  m_data :: "string \<rightharpoonup> KV"
  m_path :: wstring
  m_lastWriteTime :: file_time_type

text \<open>A default-constructed object: empty containers, \<^verbatim>\<open>m_lastWriteTime{}\<close>.\<close>

definition Settings_init :: Settings where
  "Settings_init = \<lparr>m_data = Map.empty, m_path = [], m_lastWriteTime = 0\<rparr>"

subsection \<open>C library character functions\<close>

text \<open>
  \<^verbatim>\<open>isspace\<close>, \<^verbatim>\<open>isdigit\<close> and \<^verbatim>\<open>tolower\<close> in the "C" locale; the program sets no other.
  The source calls them on the bytes of a string; a byte that is not an ASCII capital is
  returned by \<^verbatim>\<open>tolower\<close> as it is.
\<close>

definition isspace :: "char \<Rightarrow> bool" where
  "isspace c = (c = CHR '' '' \<or> c = CHR 0x09 \<or> c = CHR 0x0A \<or> c = CHR 0x0B \<or>
                c = CHR 0x0C \<or> c = CHR 0x0D)"

definition isdigit :: "char \<Rightarrow> bool" where
  "isdigit c = (let n = (of_char c :: nat) in 48 \<le> n \<and> n \<le> 57)"

definition tolower :: "char \<Rightarrow> char" where
  "tolower c = (let n = (of_char c :: nat) in if 65 \<le> n \<and> n \<le> 90 then char_of (n + 32) else c)"

subsection \<open>\<^verbatim>\<open>std::string\<close> members\<close>

text \<open>\<^verbatim>\<open>s.find(ch)\<close>: the first position of \<open>ch\<close>, \<^const>\<open>None\<close> for \<^verbatim>\<open>npos\<close>.\<close>

fun find_char :: "char \<Rightarrow> string \<Rightarrow> nat option" where
  "find_char ch [] = None"
| "find_char ch (x # xs) = (if x = ch then Some 0 else map_option Suc (find_char ch xs))"

text \<open>\<^verbatim>\<open>s.erase(pos)\<close> keeps the first \<open>pos\<close> characters.\<close>

definition erase_from :: "nat \<Rightarrow> string \<Rightarrow> string" where
  "erase_from pos s = take pos s"

text \<open>\<^verbatim>\<open>s.substr(pos, n)\<close> and \<^verbatim>\<open>s.substr(pos)\<close>, for \<open>pos \<le> size\<close> (the only calls made).\<close>

definition substr :: "string \<Rightarrow> nat \<Rightarrow> nat \<Rightarrow> string" where
  "substr s pos n = take n (drop pos s)"

definition substr_from :: "string \<Rightarrow> nat \<Rightarrow> string" where
  "substr_from s pos = drop pos s"

subsection \<open>\<^verbatim>\<open>trim\<close> (Settings.cpp, lines 20--25)\<close>

text \<open>
  First the leading whitespace is erased (up to the first non-space from the front), then the
  trailing whitespace (from behind the last non-space to the end).
\<close>

definition trim :: "string \<Rightarrow> string" where
  "trim s = (let s1 = dropWhile isspace s in rev (dropWhile isspace (rev s1)))"

subsection \<open>\<^verbatim>\<open>std::getline\<close> on the rest of the stream\<close>

text \<open>
  One call of \<^verbatim>\<open>std::getline(iss, line)\<close> on a stream whose unread rest is \<open>s\<close>: at the end of the
  stream nothing is extracted and the call fails (the loop ends); otherwise the characters up
  to the next newline are the line, and the newline itself is consumed.
\<close>

definition getline :: "string \<Rightarrow> (string \<times> string) option" where
  "getline s =
     (if s = [] then None
      else (case find_char (CHR 0x0A) s of
              None \<Rightarrow> Some (s, [])
            | Some i \<Rightarrow> Some (take i s, drop (Suc i) s)))"

subsection \<open>\<^verbatim>\<open>Settings::Parse\<close> (Settings.cpp, lines 79--117)\<close>

text \<open>\<^verbatim>\<open>m_data[cat][key] = val\<close>: both \<^verbatim>\<open>operator[]\<close> calls create what is missing.\<close>

definition store :: "(string \<rightharpoonup> KV) \<Rightarrow> string \<Rightarrow> string \<Rightarrow> string \<Rightarrow> (string \<rightharpoonup> KV)" where
  "store d cat key val =
     d(cat \<mapsto> (case d cat of None \<Rightarrow> Map.empty | Some kv \<Rightarrow> kv)(key \<mapsto> val))"

text \<open>
  The body of the \<^verbatim>\<open>while\<close> loop, on the pair of \<^verbatim>\<open>m_data\<close> and \<^verbatim>\<open>currentCat\<close>; every
  \<^verbatim>\<open>continue\<close> returns the pair as it stands. Lines 88--93 erase the comment, line 95 trims,
  lines 96--114 act on the trimmed line.
\<close>

definition erase_comments :: "string \<Rightarrow> string" where
  "erase_comments line0 =
     (let line1 = (case find_char (CHR '';'') line0 of
                     Some semi \<Rightarrow> erase_from semi line0 | None \<Rightarrow> line0);
          line2 = (case find_char (CHR ''#'') line1 of
                     Some hash \<Rightarrow> erase_from hash line1 | None \<Rightarrow> line1)
      in line2)"

definition handle_line :: "(string \<rightharpoonup> KV) \<times> string \<Rightarrow> string \<Rightarrow> (string \<rightharpoonup> KV) \<times> string" where
  "handle_line st line =
     (if line = [] then st
      else if hd line = CHR ''['' \<and> last line = CHR '']''
        then (fst st, trim (substr line 1 (length line - 2)))
      else (case find_char (CHR ''='') line of
              None \<Rightarrow> st
            | Some eq \<Rightarrow>
                let key = trim (substr line 0 eq);
                    val = trim (substr_from line (eq + 1))
                in (store (fst st) (snd st) key val, snd st)))"

definition parse_line :: "(string \<rightharpoonup> KV) \<times> string \<Rightarrow> string \<Rightarrow> (string \<rightharpoonup> KV) \<times> string" where
  "parse_line st line0 = handle_line st (trim (erase_comments line0))"

lemma getline_shorter: "getline s = Some (l, r) \<Longrightarrow> length r < length s"
  by (cases s) (auto simp: getline_def split: option.splits if_splits)

function parse_loop :: "string \<Rightarrow> (string \<rightharpoonup> KV) \<times> string \<Rightarrow> (string \<rightharpoonup> KV) \<times> string" where
  "parse_loop iss st =
     (case getline iss of
        None \<Rightarrow> st
      | Some (line, rest) \<Rightarrow> parse_loop rest (parse_line st line))"
  by pat_completeness auto
termination
  by (relation "measure (\<lambda>(iss, st). length iss)") (auto simp: getline_shorter)

declare parse_loop.simps [simp del]

text \<open>
  \<^verbatim>\<open>Parse\<close> clears \<^verbatim>\<open>m_data\<close>, starts in the category \<^verbatim>\<open>"Default"\<close>, runs the loop and returns
  \<^verbatim>\<open>true\<close>.
\<close>

definition Parse :: "string \<Rightarrow> Settings \<Rightarrow> bool \<times> Settings" where
  "Parse text s = (True, s\<lparr>m_data := fst (parse_loop text (Map.empty, ''Default''))\<rparr>)"

subsection \<open>Getters (Settings.cpp, lines 125--199)\<close>

definition GetString :: "Settings \<Rightarrow> string \<Rightarrow> string \<Rightarrow> string option" where
  "GetString s cat key =
     (case m_data s cat of
        None \<Rightarrow> None
      | Some kv \<Rightarrow> (case kv key of None \<Rightarrow> None | Some v \<Rightarrow> Some v))"

text \<open>
  \<^verbatim>\<open>std::stoi(str)\<close> is \<^verbatim>\<open>strtol\<close> in base 10: leading whitespace is skipped, one sign is
  accepted, then the longest run of decimal digits is read and the rest of the string is
  ignored. With no digit it throws \<^verbatim>\<open>std::invalid_argument\<close>, with a value that is not an
  \<^verbatim>\<open>int\<close> it throws \<^verbatim>\<open>std::out_of_range\<close>; both are \<^const>\<open>None\<close> here.
\<close>

definition digit_val :: "char \<Rightarrow> nat" where
  "digit_val c = of_char c - 48"

definition dec_value :: "string \<Rightarrow> nat" where
  "dec_value ds = foldl (\<lambda>acc c. 10 * acc + digit_val c) 0 ds"

definition stoi :: "string \<Rightarrow> 32 word option" where
  "stoi str =
     (let s = dropWhile isspace str;
          neg = (s \<noteq> [] \<and> hd s = CHR ''-'');
          t = (if s \<noteq> [] \<and> (hd s = CHR ''-'' \<or> hd s = CHR ''+'') then tl s else s);
          ds = takeWhile isdigit t
      in if ds = [] then None
         else let n = int (dec_value ds); v = (if neg then - n else n)
              in if v < - (2 ^ 31) \<or> 2 ^ 31 - 1 < v then None else Some (word_of_int v))"

definition GetInt :: "Settings \<Rightarrow> string \<Rightarrow> string \<Rightarrow> 32 word \<Rightarrow> 32 word" where
  "GetInt s cat key def =
     (case GetString s cat key of
        None \<Rightarrow> def
      | Some str \<Rightarrow> (case stoi str of Some v \<Rightarrow> v | None \<Rightarrow> def))"

subsubsection \<open>Binary64 values and rounding\<close>

text \<open>
  \<open>binade x\<close> is the exponent \<open>e\<close> with \<open>2\<^sup>e \<le> |x| < 2\<^sup>e\<^sup>+\<^sup>1\<close>, for \<open>x \<noteq> 0\<close>. The binary64 values are
  the multiples of \<open>2\<^sup>e\<^sup>-\<^sup>5\<^sup>2\<close> below \<open>2\<^sup>1\<^sup>0\<^sup>2\<^sup>4\<close> in magnitude, where \<open>e\<close> is the binade, at least
  \<open>-1022\<close> (below that the values are subnormal and equally spaced).
\<close>

definition binade :: "rat \<Rightarrow> int" where
  "binade x = (if 1 \<le> \<bar>x\<bar> then bitlen \<lfloor>\<bar>x\<bar>\<rfloor> - 1 else - bitlen (\<lceil>1 / \<bar>x\<bar>\<rceil> - 1))"

definition ulp_exp :: "rat \<Rightarrow> int" where
  "ulp_exp x = max (binade x) (- 1022) - 52"

definition is_integer :: "rat \<Rightarrow> bool" where
  "is_integer x = (of_int \<lfloor>x\<rfloor> = x)"

definition is_binary64 :: "rat \<Rightarrow> bool" where
  "is_binary64 x = (\<bar>x\<bar> < 2 ^ 1024 \<and> (x = 0 \<or> is_integer (x / 2 powi ulp_exp x)))"

fun is_double :: "double \<Rightarrow> bool" where
  "is_double (Finite x) = is_binary64 x"
| "is_double PInf = True"
| "is_double NInf = True"
| "is_double NaN = True"

text \<open>Rounding to the nearest integer, a tie to the even one.\<close>

definition round_even :: "rat \<Rightarrow> int" where
  "round_even x =
     (let f = \<lfloor>x\<rfloor>; r = x - of_int f
      in if r < 1 / 2 then f else if 1 / 2 < r then f + 1 else if even f then f else f + 1)"

text \<open>
  Rounding a rational to the nearest binary64 value, a tie to the even significand, with the
  exponent unbounded above: a result of magnitude \<open>2\<^sup>1\<^sup>0\<^sup>2\<^sup>4\<close> or more is an overflow.
\<close>

definition round_binary64 :: "rat \<Rightarrow> rat" where
  "round_binary64 x = (if x = 0 then 0 else of_int (round_even (x / 2 powi ulp_exp x)) * 2 powi ulp_exp x)"

subsubsection \<open>\<^verbatim>\<open>std::stod\<close>\<close>

text \<open>
  \<^verbatim>\<open>std::stod(str)\<close> is \<^verbatim>\<open>strtod\<close>: leading whitespace is skipped, one sign is accepted, then the
  longest prefix of one of the forms \<^verbatim>\<open>inf\<close>/\<^verbatim>\<open>infinity\<close>, \<^verbatim>\<open>nan\<close>, a hexadecimal
  floating constant after \<^verbatim>\<open>0x\<close>, or a decimal floating constant is converted, and the rest of
  the string is ignored. With no such prefix it throws \<^verbatim>\<open>std::invalid_argument\<close>; when
  \<^verbatim>\<open>strtod\<close> reports \<^verbatim>\<open>ERANGE\<close> it throws \<^verbatim>\<open>std::out_of_range\<close>; both are \<^const>\<open>None\<close>. The library
  rounds correctly (to nearest, ties to even). What it returns and whether it reports
  \<^verbatim>\<open>ERANGE\<close> for a non-zero value below the normal range is implementation-defined: that is the
  argument \<open>tiny\<close>, from the exact value to the outcome.
\<close>

definition isxdigit :: "char \<Rightarrow> bool" where
  "isxdigit c = (isdigit c \<or> (let n = (of_char (tolower c) :: nat) in 97 \<le> n \<and> n \<le> 102))"

definition xdigit_val :: "char \<Rightarrow> nat" where
  "xdigit_val c = (if isdigit c then of_char c - 48 else of_char (tolower c) - 87)"

definition hex_value :: "string \<Rightarrow> nat" where
  "hex_value ds = foldl (\<lambda>acc c. 16 * acc + xdigit_val c) 0 ds"

definition lower_prefix :: "string \<Rightarrow> string \<Rightarrow> bool" where
  "lower_prefix w t = (map tolower (take (length w) t) = w)"

text \<open>
  The exponent part, if \<open>s\<close> starts with one: the marker (\<^verbatim>\<open>e\<close> or \<^verbatim>\<open>p\<close>, in either case), an
  optional sign and at least one decimal digit. Otherwise the exponent is 0.
\<close>

definition exponent_part :: "char \<Rightarrow> string \<Rightarrow> int" where
  "exponent_part mark s =
     (if s \<noteq> [] \<and> tolower (hd s) = mark
      then let r = tl s;
               neg = (r \<noteq> [] \<and> hd r = CHR ''-'');
               t = (if r \<noteq> [] \<and> (hd r = CHR ''-'' \<or> hd r = CHR ''+'') then tl r else r);
               ds = takeWhile isdigit t
           in if ds = [] then 0 else if neg then - int (dec_value ds) else int (dec_value ds)
      else 0)"

definition strtod_decimal :: "string \<Rightarrow> rat option" where
  "strtod_decimal t =
     (let ip = takeWhile isdigit t;
          r1 = dropWhile isdigit t;
          point = (r1 \<noteq> [] \<and> hd r1 = CHR ''.'');
          fp = (if point then takeWhile isdigit (tl r1) else []);
          r2 = (if point then dropWhile isdigit (tl r1) else r1)
      in if ip = [] \<and> fp = [] then None
         else Some (of_nat (dec_value (ip @ fp)) *
                    10 powi (exponent_part (CHR ''e'') r2 - int (length fp))))"

definition strtod_hex :: "string \<Rightarrow> rat option" where
  "strtod_hex t =
     (let ip = takeWhile isxdigit t;
          r1 = dropWhile isxdigit t;
          point = (r1 \<noteq> [] \<and> hd r1 = CHR ''.'');
          fp = (if point then takeWhile isxdigit (tl r1) else []);
          r2 = (if point then dropWhile isxdigit (tl r1) else r1)
      in if ip = [] \<and> fp = [] then None
         else Some (of_nat (hex_value (ip @ fp)) *
                    2 powi (exponent_part (CHR ''p'') r2 - 4 * int (length fp))))"

definition strtod_result :: "(rat \<Rightarrow> double option) \<Rightarrow> rat \<Rightarrow> double option" where
  "strtod_result tiny x =
     (if x \<noteq> 0 \<and> \<bar>x\<bar> < 2 powi (- 1022) then tiny x
      else let r = round_binary64 x in if 2 ^ 1024 \<le> \<bar>r\<bar> then None else Some (Finite r))"

definition stod :: "(rat \<Rightarrow> double option) \<Rightarrow> string \<Rightarrow> double option" where
  "stod tiny str =
     (let s = dropWhile isspace str;
          neg = (s \<noteq> [] \<and> hd s = CHR ''-'');
          t = (if s \<noteq> [] \<and> (hd s = CHR ''-'' \<or> hd s = CHR ''+'') then tl s else s)
      in if lower_prefix ''inf'' t then Some (if neg then NInf else PInf)
         else if lower_prefix ''nan'' t then Some NaN
         else (case (if lower_prefix ''0x'' t then strtod_hex (drop 2 t) else None) of
                 Some x \<Rightarrow> strtod_result tiny (if neg then - x else x)
               | None \<Rightarrow>
                   (case strtod_decimal t of
                      None \<Rightarrow> None
                    | Some x \<Rightarrow> strtod_result tiny (if neg then - x else x))))"

definition GetDouble ::
  "(rat \<Rightarrow> double option) \<Rightarrow> Settings \<Rightarrow> string \<Rightarrow> string \<Rightarrow> double \<Rightarrow> double" where
  "GetDouble tiny s cat key def =
     (case GetString s cat key of
        None \<Rightarrow> def
      | Some str \<Rightarrow> (case stod tiny str of Some v \<Rightarrow> v | None \<Rightarrow> def))"

definition GetBool :: "Settings \<Rightarrow> string \<Rightarrow> string \<Rightarrow> bool \<Rightarrow> bool" where
  "GetBool s cat key def =
     (case GetString s cat key of
        None \<Rightarrow> def
      | Some str \<Rightarrow>
          let v = map tolower str
          in if v = ''1'' \<or> v = ''true'' \<or> v = ''on'' \<or> v = ''yes'' then True
             else if v = ''0'' \<or> v = ''false'' \<or> v = ''off'' \<or> v = ''no'' then False
             else def)"

subsection \<open>Setters (Settings.cpp, lines 207--240)\<close>

text \<open>\<^verbatim>\<open>std::to_string(int)\<close> prints as \<^verbatim>\<open>%d\<close> does.\<close>

definition digit_char :: "nat \<Rightarrow> char" where
  "digit_char d = char_of (48 + d)"

function dec_digits :: "nat \<Rightarrow> string" where
  "dec_digits n = (if n < 10 then [digit_char n] else dec_digits (n div 10) @ [digit_char (n mod 10)])"
  by pat_completeness auto
termination
  by (relation "measure id") auto

declare dec_digits.simps [simp del]

definition to_string_int :: "32 word \<Rightarrow> string" where
  "to_string_int v =
     (if sint v < 0 then CHR ''-'' # dec_digits (nat (- sint v)) else dec_digits (nat (sint v)))"

text \<open>
  \<^verbatim>\<open>std::to_string(double)\<close> prints as \<^verbatim>\<open>%f\<close> does: the sign, the integer part, a point and
  six decimals, of the value rounded to six decimals; \<^verbatim>\<open>inf\<close>, \<^verbatim>\<open>-inf\<close> and \<^verbatim>\<open>nan\<close> otherwise.
  \<open>pad_digits k n\<close> are the last \<open>k\<close> decimal digits of \<open>n\<close>, zeros included.
\<close>

fun pad_digits :: "nat \<Rightarrow> nat \<Rightarrow> string" where
  "pad_digits 0 n = []"
| "pad_digits (Suc k) n = pad_digits k (n div 10) @ [digit_char (n mod 10)]"

definition frac6 :: "nat \<Rightarrow> string" where
  "frac6 n = pad_digits 6 n"

definition to_string_double :: "double \<Rightarrow> string" where
  "to_string_double v =
     (case v of
        Finite x \<Rightarrow>
          let n = nat (round_even (\<bar>x\<bar> * 10 ^ 6))
          in (if x < 0 then ''-'' else []) @ dec_digits (n div 10 ^ 6) @ ''.'' @ frac6 (n mod 10 ^ 6)
      | PInf \<Rightarrow> ''inf''
      | NInf \<Rightarrow> ''-inf''
      | NaN \<Rightarrow> ''nan'')"

definition SetDouble :: "Settings \<Rightarrow> string \<Rightarrow> string \<Rightarrow> double \<Rightarrow> Settings" where
  "SetDouble s cat key v = s\<lparr>m_data := store (m_data s) cat key (to_string_double v)\<rparr>"

definition SetString :: "Settings \<Rightarrow> string \<Rightarrow> string \<Rightarrow> string \<Rightarrow> Settings" where
  "SetString s cat key v = s\<lparr>m_data := store (m_data s) cat key v\<rparr>"

definition SetInt :: "Settings \<Rightarrow> string \<Rightarrow> string \<Rightarrow> 32 word \<Rightarrow> Settings" where
  "SetInt s cat key v = s\<lparr>m_data := store (m_data s) cat key (to_string_int v)\<rparr>"

definition SetBool :: "Settings \<Rightarrow> string \<Rightarrow> string \<Rightarrow> bool \<Rightarrow> Settings" where
  "SetBool s cat key v = s\<lparr>m_data := store (m_data s) cat key (if v then ''1'' else ''0'')\<rparr>"

subsection \<open>The file system, as the member functions see it\<close>

text \<open>
  A path is missing, or names a file, or cannot be examined at all (a name that is too long,
  a directory that may not be searched): there \<^verbatim>\<open>std::filesystem::exists\<close> and
  \<^verbatim>\<open>std::filesystem::last_write_time\<close> throw \<^verbatim>\<open>filesystem_error\<close>. The source calls the
  throwing overloads and catches nothing, so a call of a member function either returns or
  leaves by the exception, with the object as it is at that moment.

  A file has the characters a text-mode input stream delivers, its modification time, and
  whether it can be opened for reading and for writing. \<open>can_create\<close> says whether a path
  that names no file can be opened with \<^verbatim>\<open>std::ios::trunc\<close>; \<open>clock\<close> is the time stamp the
  next write gets. The program is single-threaded and nothing else is assumed to touch the
  files during one call; an output stream that has opened writes all the characters it is
  given.
\<close>

record disk_file =
  contents :: string
  mtime :: file_time_type
  readable :: bool
  writable :: bool

datatype path_status = Missing | Present disk_file | StatFails

record filesystem =
  status :: "wstring \<Rightarrow> path_status"
  can_create :: "wstring \<Rightarrow> bool"
  clock :: file_time_type

datatype call_result = Returned bool | Threw

text \<open>\<^const>\<open>None\<close> is the exception.\<close>

definition fs_exists :: "filesystem \<Rightarrow> wstring \<Rightarrow> bool option" where
  "fs_exists fs p =
     (case status fs p of Missing \<Rightarrow> Some False | Present f \<Rightarrow> Some True | StatFails \<Rightarrow> None)"

definition last_write_time :: "filesystem \<Rightarrow> wstring \<Rightarrow> file_time_type option" where
  "last_write_time fs p =
     (case status fs p of Missing \<Rightarrow> None | Present f \<Rightarrow> Some (mtime f) | StatFails \<Rightarrow> None)"

definition ifstream_open :: "filesystem \<Rightarrow> wstring \<Rightarrow> string option" where
  "ifstream_open fs p =
     (case status fs p of
        Present f \<Rightarrow> if readable f then Some (contents f) else None
      | _ \<Rightarrow> None)"

definition ofstream_open :: "filesystem \<Rightarrow> wstring \<Rightarrow> bool" where
  "ofstream_open fs p = (case status fs p of Present f \<Rightarrow> writable f | _ \<Rightarrow> can_create fs p)"

definition write_file :: "filesystem \<Rightarrow> wstring \<Rightarrow> string \<Rightarrow> filesystem" where
  "write_file fs p text =
     fs\<lparr>status := (status fs)(p :=
          (case status fs p of
             Missing \<Rightarrow> Present \<lparr>contents = text, mtime = clock fs, readable = True, writable = True\<rparr>
           | Present f \<Rightarrow> Present (f\<lparr>contents := text, mtime := clock fs\<rparr>)
           | StatFails \<Rightarrow> StatFails))\<rparr>"

subsection \<open>\<^verbatim>\<open>Load\<close>, \<^verbatim>\<open>ReloadIfChanged\<close>, \<^verbatim>\<open>Path\<close> (Settings.cpp, lines 32--72)\<close>

definition Load :: "filesystem \<Rightarrow> wstring \<Rightarrow> Settings \<Rightarrow> call_result \<times> Settings" where
  "Load fs path s0 =
     (let s = s0\<lparr>m_path := path\<rparr>
      in case fs_exists fs path of
           None \<Rightarrow> (Threw, s)
         | Some False \<Rightarrow> (Returned False, s)
         | Some True \<Rightarrow>
             (case ifstream_open fs path of
                None \<Rightarrow> (Returned False, s)
              | Some buf \<Rightarrow>
                  let (ok, s') = Parse buf s
                  in if \<not> ok then (Returned False, s')
                     else (case last_write_time fs path of
                             None \<Rightarrow> (Threw, s')
                           | Some t \<Rightarrow> (Returned True, s'\<lparr>m_lastWriteTime := t\<rparr>))))"

definition ReloadIfChanged :: "filesystem \<Rightarrow> Settings \<Rightarrow> call_result \<times> Settings" where
  "ReloadIfChanged fs s =
     (if m_path s = [] then (Returned False, s)
      else case fs_exists fs (m_path s) of
           None \<Rightarrow> (Threw, s)
         | Some False \<Rightarrow> (Returned False, s)
         | Some True \<Rightarrow>
             (case last_write_time fs (m_path s) of
                None \<Rightarrow> (Threw, s)
              | Some now \<Rightarrow>
                  if now \<noteq> m_lastWriteTime s
                  then (case ifstream_open fs (m_path s) of
                          None \<Rightarrow> (Returned False, s)
                        | Some buf \<Rightarrow>
                            let (ok, s') = Parse buf s
                            in if \<not> ok then (Returned False, s')
                               else (Returned True, s'\<lparr>m_lastWriteTime := now\<rparr>))
                  else (Returned False, s)))"

definition Path :: "Settings \<Rightarrow> wstring" where
  "Path s = m_path s"

subsection \<open>\<^verbatim>\<open>Save\<close> (Settings.cpp, lines 246--269)\<close>

text \<open>
  The two nested range-\<^verbatim>\<open>for\<close> loops visit \<^verbatim>\<open>m_data\<close> itself. Only the order in which an
  \<^verbatim>\<open>unordered_map\<close> is visited is unspecified, so only the order is an argument: \<open>cats\<close>
  is the order of the categories and \<open>keys c\<close> the order of the keys of the category \<open>c\<close>.
  \<open>visit\<close> reads the categories, keys and values out of the container in that order.
\<close>

definition visit_keys :: "string list \<Rightarrow> KV \<Rightarrow> (string \<times> string) list" where
  "visit_keys ks kv = List.map_filter (\<lambda>k. map_option (\<lambda>v. (k, v)) (kv k)) ks"

definition visit ::
  "string list \<Rightarrow> (string \<Rightarrow> string list) \<Rightarrow> (string \<rightharpoonup> KV) \<Rightarrow> (string \<times> (string \<times> string) list) list" where
  "visit cats keys d =
     List.map_filter (\<lambda>c. map_option (\<lambda>kv. (c, visit_keys (keys c) kv)) (d c)) cats"

text \<open>An order of the container \<open>d\<close>: every category and every key of it is met exactly once.\<close>

definition visit_order :: "string list \<Rightarrow> (string \<Rightarrow> string list) \<Rightarrow> (string \<rightharpoonup> KV) \<Rightarrow> bool" where
  "visit_order cats keys d =
     (distinct cats \<and> set cats = dom d \<and>
      (\<forall>c kv. d c = Some kv \<longrightarrow> distinct (keys c) \<and> set (keys c) = dom kv))"

text \<open>The text streamed for the items visited.\<close>

definition save_category :: "string \<times> (string \<times> string) list \<Rightarrow> string" where
  "save_category ckv =
     ''['' @ fst ckv @ '']'' @ [CHR 0x0A] @
     concat (map (\<lambda>(k, v). k @ ''='' @ v @ [CHR 0x0A]) (snd ckv)) @ [CHR 0x0A]"

definition save_text :: "(string \<times> (string \<times> string) list) list \<Rightarrow> string" where
  "save_text items = concat (map save_category items)"

text \<open>Which of its exits \<^verbatim>\<open>Save\<close> takes before it writes.\<close>

datatype save_exit = NoPath | OpenFailed | Saved

definition Save_exit :: "filesystem \<Rightarrow> Settings \<Rightarrow> save_exit" where
  "Save_exit fs s =
     (if m_path s = [] then NoPath
      else if \<not> ofstream_open fs (m_path s) then OpenFailed
      else Saved)"

definition Save ::
  "filesystem \<Rightarrow> string list \<Rightarrow> (string \<Rightarrow> string list) \<Rightarrow> Settings \<Rightarrow>
     call_result \<times> Settings \<times> filesystem" where
  "Save fs cats keys s =
     (case Save_exit fs s of
        NoPath \<Rightarrow> (Returned False, s, fs)
      | OpenFailed \<Rightarrow> (Returned False, s, fs)
      | Saved \<Rightarrow>
          let fs' = write_file fs (m_path s) (save_text (visit cats keys (m_data s)))
          in (case fs_exists fs' (m_path s) of
                None \<Rightarrow> (Threw, s, fs')
              | Some False \<Rightarrow> (Returned True, s, fs')
              | Some True \<Rightarrow>
                  (case last_write_time fs' (m_path s) of
                     None \<Rightarrow> (Threw, s, fs')
                   | Some t \<Rightarrow> (Returned True, s\<lparr>m_lastWriteTime := t\<rparr>, fs'))))"

section \<open>Notions used to state the properties\<close>

subsection \<open>The lines of a text\<close>

text \<open>The lines that successive calls of \<^const>\<open>getline\<close> deliver.\<close>

function lines_of :: "string \<Rightarrow> string list" where
  "lines_of s = (case getline s of None \<Rightarrow> [] | Some (l, r) \<Rightarrow> l # lines_of r)"
  by pat_completeness auto
termination
  by (relation "measure length") (auto simp: getline_shorter)

declare lines_of.simps [simp del]

subsection \<open>Comments, section headers and key/value lines\<close>

text \<open>
  What is left of a line when everything from the first \<^verbatim>\<open>;\<close> or \<^verbatim>\<open>#\<close> onward is removed, and
  the line cleaned: that, without leading and trailing whitespace.
\<close>

definition before_comment :: "string \<Rightarrow> string" where
  "before_comment line = takeWhile (\<lambda>c. c \<noteq> CHR '';'' \<and> c \<noteq> CHR ''#'') line"

definition clean_line :: "string \<Rightarrow> string" where
  "clean_line line = trim (before_comment line)"

text \<open>
  A header is a line whose cleaned text is wrapped in \<^verbatim>\<open>[\<close> and \<^verbatim>\<open>]\<close>; its name is the inner
  text, trimmed. A key/value line is a line that is no header and whose cleaned text has an
  \<^verbatim>\<open>=\<close>; its key is what stands before the first \<^verbatim>\<open>=\<close>, its value what stands behind it,
  both trimmed.
\<close>

definition is_header :: "string \<Rightarrow> bool" where
  "is_header line = (let l = clean_line line in l \<noteq> [] \<and> hd l = CHR ''['' \<and> last l = CHR '']'')"

definition header_name :: "string \<Rightarrow> string" where
  "header_name line = trim (butlast (tl (clean_line line)))"

definition is_keyvalue :: "string \<Rightarrow> bool" where
  "is_keyvalue line = (\<not> is_header line \<and> CHR ''='' \<in> set (clean_line line))"

definition key_of :: "string \<Rightarrow> string" where
  "key_of line = trim (takeWhile (\<lambda>c. c \<noteq> CHR ''='') (clean_line line))"

definition value_of :: "string \<Rightarrow> string" where
  "value_of line = trim (tl (dropWhile (\<lambda>c. c \<noteq> CHR ''='') (clean_line line)))"

text \<open>
  The category in force after the lines \<open>ls\<close>: the name of the last header among them,
  \<^verbatim>\<open>"Default"\<close> when there is none. \<open>writes ls\<close> lists, in the order of the lines, the key/value
  lines as triples of the category in force before the line, the key and the value;
  \<open>last_write\<close> is the value of the last triple with a given category and key.
\<close>

definition category_at :: "string list \<Rightarrow> string" where
  "category_at ls = (case rev (filter is_header ls) of [] \<Rightarrow> ''Default'' | h # _ \<Rightarrow> header_name h)"

definition writes :: "string list \<Rightarrow> (string \<times> string \<times> string) list" where
  "writes ls = concat (map (\<lambda>i. if is_keyvalue (ls ! i)
                                  then [(category_at (take i ls), key_of (ls ! i), value_of (ls ! i))]
                                  else []) [0..<length ls])"

definition last_write :: "(string \<times> string \<times> string) list \<Rightarrow> string \<Rightarrow> string \<Rightarrow> string option" where
  "last_write ws c k =
     (case rev (filter (\<lambda>w. fst w = c \<and> fst (snd w) = k) ws) of
        [] \<Rightarrow> None
      | w # _ \<Rightarrow> Some (snd (snd w)))"

definition lookup :: "(string \<rightharpoonup> KV) \<Rightarrow> string \<Rightarrow> string \<Rightarrow> string option" where
  "lookup d c k = (case d c of None \<Rightarrow> None | Some kv \<Rightarrow> kv k)"

subsection \<open>Iterations of the container\<close>

text \<open>
  \<open>items\<close> is an iteration of the container \<open>d\<close>: every category and every key is met once,
  with the value stored.
\<close>

definition iteration_of :: "(string \<times> (string \<times> string) list) list \<Rightarrow> (string \<rightharpoonup> KV) \<Rightarrow> bool" where
  "iteration_of items d =
     (distinct (map fst items) \<and> list_all (\<lambda>ckv. distinct (map fst (snd ckv))) items \<and>
      d = map_of (map (\<lambda>ckv. (fst ckv, map_of (snd ckv))) items))"

subsection \<open>Documents that survive saving and parsing\<close>

definition no_special :: "string \<Rightarrow> bool" where
  "no_special s = (CHR '';'' \<notin> set s \<and> CHR ''#'' \<notin> set s \<and> CHR 0x0A \<notin> set s)"

definition trimmed :: "string \<Rightarrow> bool" where
  "trimmed s = (s = [] \<or> (\<not> isspace (hd s) \<and> \<not> isspace (last s)))"

definition wf_category :: "string \<Rightarrow> bool" where
  "wf_category c = (c \<noteq> [] \<and> no_special c \<and> trimmed c)"

definition wf_key :: "string \<Rightarrow> bool" where
  "wf_key k = (k \<noteq> [] \<and> no_special k \<and> trimmed k \<and> CHR ''='' \<notin> set k \<and> hd k \<noteq> CHR ''['')"

definition wf_value :: "string \<Rightarrow> bool" where
  "wf_value v = (no_special v \<and> trimmed v)"

definition wf_items :: "(string \<times> (string \<times> string) list) list \<Rightarrow> bool" where
  "wf_items items =
     list_all (\<lambda>ckv. wf_category (fst ckv) \<and> snd ckv \<noteq> [] \<and>
                      list_all (\<lambda>kv. wf_key (fst kv) \<and> wf_value (snd kv)) (snd ckv)) items"

text \<open>
  The documents of the claim: every category has a key; category names and keys are
  non-empty; names, keys and values are without \<^verbatim>\<open>;\<close>, \<^verbatim>\<open>#\<close>, newline and leading or trailing
  whitespace; keys are without \<^verbatim>\<open>=\<close> and do not start with \<^verbatim>\<open>[\<close>.
\<close>

definition wf_document :: "(string \<rightharpoonup> KV) \<Rightarrow> bool" where
  "wf_document d =
     (\<forall>c kv. d c = Some kv \<longrightarrow>
        wf_category c \<and> kv \<noteq> Map.empty \<and> (\<forall>k v. kv k = Some v \<longrightarrow> wf_key k \<and> wf_value v))"

text \<open>The lines \<^verbatim>\<open>Save\<close> writes for one category, and the stores they lead to.\<close>

definition block_lines :: "string \<times> (string \<times> string) list \<Rightarrow> string list" where
  "block_lines ckv = (''['' @ fst ckv @ '']'') # map (\<lambda>kv. fst kv @ ''='' @ snd kv) (snd ckv) @ [[]]"

definition store_all :: "(string \<rightharpoonup> KV) \<Rightarrow> string \<Rightarrow> (string \<times> string) list \<Rightarrow> (string \<rightharpoonup> KV)" where
  "store_all d c kvs = foldl (\<lambda>d kv. store d c (fst kv) (snd kv)) d kvs"

definition store_items :: "(string \<rightharpoonup> KV) \<Rightarrow> (string \<times> (string \<times> string) list) list \<Rightarrow> (string \<rightharpoonup> KV)" where
  "store_items d items = foldl (\<lambda>d ckv. store_all d (fst ckv) (snd ckv)) d items"

subsection \<open>Signed numbers in a text\<close>

text \<open>
  The value of a decimal numeral \<open>n\<close> read after the sign text \<open>sg\<close> (empty, \<^verbatim>\<open>+\<close> or \<^verbatim>\<open>-\<close>), and
  the range of \<^verbatim>\<open>int\<close>.
\<close>

definition apply_sign :: "string \<Rightarrow> nat \<Rightarrow> int" where
  "apply_sign sg n = (if sg = ''-'' then - int n else int n)"

definition apply_sign_rat :: "string \<Rightarrow> rat \<Rightarrow> rat" where
  "apply_sign_rat sg q = (if sg = ''-'' then - q else q)"

definition in_int_range :: "int \<Rightarrow> bool" where
  "in_int_range v = (- (2 ^ 31) \<le> v \<and> v \<le> 2 ^ 31 - 1)"

subsection \<open>Rounding to six decimals\<close>

text \<open>The value with six decimals nearest to \<open>x\<close>: what \<^verbatim>\<open>%f\<close> prints of it.\<close>

definition six_decimals :: "rat \<Rightarrow> rat" where
  "six_decimals x = of_int (round_even (x * 10 ^ 6)) / 10 ^ 6"

subsection \<open>Letter case\<close>

definition islower :: "char \<Rightarrow> bool" where
  "islower c = (let n = (of_char c :: nat) in 97 \<le> n \<and> n \<le> 122)"

definition isupper :: "char \<Rightarrow> bool" where
  "isupper c = (let n = (of_char c :: nat) in 65 \<le> n \<and> n \<le> 90)"

definition upper_of :: "char \<Rightarrow> char" where
  "upper_of c = char_of ((of_char c :: nat) - 32)"

text \<open>
  \<open>s\<close> is the word \<open>w\<close> written in some letter case: position by position, the character of
  \<open>w\<close> itself or, for a lower-case letter, its capital.
\<close>

definition in_any_case :: "string \<Rightarrow> string \<Rightarrow> bool" where
  "in_any_case w s = list_all2 (\<lambda>a b. a = b \<or> (islower b \<and> a = upper_of b)) s w"

definition true_words :: "string list" where
  "true_words = [''1'', ''true'', ''on'', ''yes'']"

definition false_words :: "string list" where
  "false_words = [''0'', ''false'', ''off'', ''no'']"

subsection \<open>Example values\<close>

definition sample_text :: string where
  "sample_text = ''a = 1'' @ [CHR 0x0A] @ ''[ S ]  # section'' @ [CHR 0x0A] @ ''b=2'' @ [CHR 0x0A] @
                 ''b=3'' @ [CHR 0x0A] @ ''[T]'' @ [CHR 0x0A] @ ''b=4'' @ [CHR 0x0A]"

text \<open>The file content of the end-to-end example of the specification.\<close>

definition spec_example_text :: string where
  "spec_example_text =
     ''[Render]'' @ [CHR 0x0A] @ ''VSync=0'' @ [CHR 0x0A] @ ''HotReloadIntervalMs=250'' @ [CHR 0x0A] @
     ''[Triangle]'' @ [CHR 0x0A] @ ''Scale=2.5'' @ [CHR 0x0A]"

definition ini_path :: wstring where
  "ini_path = [0x73, 0x2E, 0x69, 0x6E, 0x69]"

definition other_path :: wstring where
  "other_path = [0x78]"

definition long_path :: wstring where
  "long_path = replicate 300 0x61"

definition disk1 :: filesystem where
  "disk1 =
     \<lparr>status = (\<lambda>p. if p = ini_path
                      then Present \<lparr>contents = ''[Render]'' @ [CHR 0x0A] @ ''VSync=0'' @ [CHR 0x0A],
                                    mtime = 5, readable = True, writable = True\<rparr>
                      else if p = long_path then StatFails else Missing),
      can_create = (\<lambda>p. p \<noteq> [] \<and> p \<noteq> long_path), clock = 9\<rparr>"

definition sample_doc :: "string \<rightharpoonup> KV" where
  "sample_doc = [''Render'' \<mapsto> [''VSync'' \<mapsto> ''0'', ''HotReloadIntervalMs'' \<mapsto> ''250''],
                 ''Triangle'' \<mapsto> [''Scale'' \<mapsto> ''2.500000'']]"

definition sample_cats :: "string list" where
  "sample_cats = [''Triangle'', ''Render'']"

definition sample_keys :: "string \<Rightarrow> string list" where
  "sample_keys c = (if c = ''Render'' then [''VSync'', ''HotReloadIntervalMs''] else [''Scale''])"

definition sample_settings :: Settings where
  "sample_settings = \<lparr>m_data = sample_doc, m_path = other_path, m_lastWriteTime = 0\<rparr>"

section \<open>Properties\<close>

subsection \<open>\<^verbatim>\<open>Parse\<close>: the loop and its body\<close>

lemma parse_loop_lines: "parse_loop s st = foldl parse_line st (lines_of s)"
proof (induction s st rule: parse_loop.induct)
  case (1 iss st)
  show ?case
  proof (cases "getline iss")
    case None
    then show ?thesis
      by (simp add: parse_loop.simps [of iss] lines_of.simps [of iss])
  next
    case (Some lr)
    obtain l r where lr: "lr = (l, r)" by (cases lr)
    from Some lr 1 show ?thesis
      by (simp add: parse_loop.simps [of iss] lines_of.simps [of iss])
  qed
qed

lemma find_char_takeWhile:
  "(case find_char c s of Some i \<Rightarrow> erase_from i s | None \<Rightarrow> s) = takeWhile (\<lambda>x. x \<noteq> c) s"
  by (induction s) (auto simp: erase_from_def split: option.splits)

lemma takeWhile_twice:
  "takeWhile Q (takeWhile P s) = takeWhile (\<lambda>x. P x \<and> Q x) s"
  by (induction s) auto

lemma erase_comments_eq: "erase_comments line = before_comment line"
  by (simp add: erase_comments_def before_comment_def find_char_takeWhile takeWhile_twice)

lemma find_char_None: "find_char c s = None \<longleftrightarrow> c \<notin> set s"
  by (induction s) auto

lemma find_char_Some: "find_char c s = Some i \<Longrightarrow> take i s = takeWhile (\<lambda>x. x \<noteq> c) s \<and> drop (Suc i) s = tl (dropWhile (\<lambda>x. x \<noteq> c) s)"
  by (induction s arbitrary: i) (auto split: if_splits)

lemma substr_inner: "l \<noteq> [] \<Longrightarrow> substr l (Suc 0) (length l - 2) = butlast (tl l)"
  by (cases l) (auto simp: substr_def butlast_conv_take)

lemma parse_line_cases:
  "parse_line (d, c) line =
     (if is_header line then (d, header_name line)
      else if is_keyvalue line then (store d c (key_of line) (value_of line), c)
      else (d, c))"
proof -
  let ?l = "clean_line line"
  have cl: "trim (erase_comments line) = ?l"
    by (simp add: clean_line_def erase_comments_eq)
  show ?thesis
  proof (cases "?l = []")
    case True
    then show ?thesis
      by (simp add: parse_line_def cl handle_line_def is_header_def is_keyvalue_def)
  next
    case ne: False
    show ?thesis
    proof (cases "is_header line")
      case True
      then show ?thesis
        using ne by (simp add: parse_line_def cl handle_line_def is_header_def header_name_def substr_inner Let_def)
    next
      case nh: False
      show ?thesis
      proof (cases "find_char (CHR ''='') ?l")
        case None
        then have "CHR ''='' \<notin> set ?l"
          by (simp add: find_char_None)
        then show ?thesis
          using ne nh None by (auto simp: parse_line_def cl handle_line_def is_header_def is_keyvalue_def Let_def)
      next
        case (Some eq)
        then have "CHR ''='' \<in> set ?l"
          using find_char_None [of "CHR ''=''" ?l] by auto
        then show ?thesis
          using ne nh Some find_char_Some [OF Some]
          by (auto simp: parse_line_def cl handle_line_def is_header_def is_keyvalue_def Let_def
              substr_def substr_from_def key_of_def value_of_def)
      qed
    qed
  qed
qed

lemma trim_all_space: "list_all isspace s \<Longrightarrow> trim s = []"
  by (auto simp: trim_def list_all_iff dest: set_dropWhileD)

lemma hd_trim:
  assumes "trim s \<noteq> []"
  shows "dropWhile isspace s \<noteq> [] \<and> hd (trim s) = hd (dropWhile isspace s)"
proof -
  let ?s1 = "dropWhile isspace s"
  have ne: "?s1 \<noteq> []"
  proof
    assume "?s1 = []"
    then have "trim s = []"
      by (auto simp: trim_def dest: set_dropWhileD)
    with assms show False
      by simp
  qed
  then obtain a t where s1: "?s1 = a # t"
    by (cases ?s1) auto
  then have a: "\<not> isspace a"
    using hd_dropWhile [of isspace s] ne by auto
  have "dropWhile isspace (rev t @ [a]) = dropWhile isspace (rev t) @ [a]"
    using a by (simp add: dropWhile_append3)
  then have "trim s = a # rev (dropWhile isspace (rev t))"
    by (simp add: trim_def s1 Let_def)
  then show ?thesis
    using ne s1 by simp
qed

lemma hash_line_clean:
  assumes "trim line \<noteq> []" and "hd (trim line) = CHR ''#''"
  shows "trim (before_comment line) = []"
proof -
  from hd_trim [OF assms(1)] assms(2)
  obtain t where d: "dropWhile isspace line = CHR ''#'' # t"
    by (cases "dropWhile isspace line") auto
  have l: "line = takeWhile isspace line @ CHR ''#'' # t"
    using takeWhile_dropWhile_id [of isspace line] d by simp
  have sp: "\<And>x. x \<in> set (takeWhile isspace line) \<Longrightarrow> x \<noteq> CHR '';'' \<and> x \<noteq> CHR ''#''"
    by (auto dest!: set_takeWhileD simp: isspace_def)
  have "before_comment line = takeWhile isspace line"
    unfolding before_comment_def
    by (subst l) (simp add: takeWhile_append2 sp del: takeWhile_append)
  moreover have "list_all isspace (takeWhile isspace line)"
    by (auto simp: list_all_iff dest: set_takeWhileD)
  ultimately show ?thesis
    by (simp add: trim_all_space)
qed

text \<open>
  Claim C5. For every input line, \<^verbatim>\<open>Parse\<close> acts on what is left when everything from the
  first \<^verbatim>\<open>;\<close> or \<^verbatim>\<open>#\<close> onward is removed and the rest is trimmed, and skips the line when
  that is empty; a line whose trimmed text starts with \<^verbatim>\<open>#\<close> changes neither the document
  nor the current category; the line \<^verbatim>\<open>key=1 ; comment\<close> stores the value \<^verbatim>\<open>1\<close> under the key
  \<^verbatim>\<open>key\<close> of the current category.
\<close>

theorem Parse_comment_stripping:
  "parse_line st line = handle_line st (trim (before_comment line)) \<and>
   (trim (before_comment line) = [] \<longrightarrow> parse_line st line = st) \<and>
   (trim line \<noteq> [] \<and> hd (trim line) = CHR ''#'' \<longrightarrow> parse_line st line = st) \<and>
   snd (Parse text s) =
     s\<lparr>m_data := fst (foldl (\<lambda>st line. handle_line st (trim (before_comment line)))
                         (Map.empty, ''Default'') (lines_of text))\<rparr> \<and>
   parse_line (d, c) ''key=1 ; comment'' = (store d c ''key'' ''1'', c)"
proof -
  have a: "\<And>st line. parse_line st line = handle_line st (trim (before_comment line))"
    by (simp add: parse_line_def erase_comments_eq)
  have b: "trim (before_comment line) = [] \<Longrightarrow> parse_line st line = st"
    by (simp add: a handle_line_def)
  have c: "trim line \<noteq> [] \<Longrightarrow> hd (trim line) = CHR ''#'' \<Longrightarrow> parse_line st line = st"
    by (simp add: a hash_line_clean handle_line_def)
  have e: "parse_line = (\<lambda>st line. handle_line st (trim (before_comment line)))"
    by (intro ext) (rule a)
  have f: "snd (Parse text s) =
     s\<lparr>m_data := fst (foldl (\<lambda>st line. handle_line st (trim (before_comment line)))
                         (Map.empty, ''Default'') (lines_of text))\<rparr>"
    by (simp add: Parse_def parse_loop_lines e)
  have g: "parse_line (d, c) ''key=1 ; comment'' = (store d c ''key'' ''1'', c)"
    by (simp add: parse_line_def erase_comments_def erase_from_def handle_line_def trim_def
        isspace_def substr_def substr_from_def Let_def)
  show ?thesis
    using a b c f g by blast
qed

theorem Parse_comment_stripping_witness:
  "trim ''  # note'' \<noteq> [] \<and> hd (trim ''  # note'') = CHR ''#'' \<and>
   parse_line (Map.empty, ''Default'') ''  # note'' = (Map.empty, ''Default'') \<and>
   trim (before_comment ''  ; x=1'') = [] \<and>
   parse_line (Map.empty, ''Default'') ''  ; x=1'' = (Map.empty, ''Default'') \<and>
   parse_line (Map.empty, ''Default'') ''key=1 ; comment'' = ([''Default'' \<mapsto> [''key'' \<mapsto> ''1'']], ''Default'')"
proof -
  have a: "trim ''  # note'' \<noteq> [] \<and> hd (trim ''  # note'') = CHR ''#''"
    by code_simp
  have b: "trim (before_comment ''  ; x=1'') = []"
    by code_simp
  have c: "store Map.empty ''Default'' ''key'' ''1'' = [''Default'' \<mapsto> [''key'' \<mapsto> ''1'']]"
    by (simp add: store_def)
  show ?thesis
    using a b c
      Parse_comment_stripping [of "(Map.empty, ''Default'')" "''  # note''" "[]" Settings_init Map.empty "''Default''"]
      Parse_comment_stripping [of "(Map.empty, ''Default'')" "''  ; x=1''" "[]" Settings_init Map.empty "''Default''"]
    by metis
qed

subsection \<open>Sections and duplicate keys\<close>

lemma GetString_lookup: "GetString s c k = lookup (m_data s) c k"
  by (simp add: GetString_def lookup_def split: option.splits)

lemma lookup_store:
  "lookup (store d c k v) c' k' = (if c' = c \<and> k' = k then Some v else lookup d c' k')"
  by (auto simp: lookup_def store_def split: option.splits)

lemma dom_store: "dom (store d c k v) = insert c (dom d)"
  by (auto simp: store_def)

lemma category_at_snoc:
  "category_at (ls @ [l]) = (if is_header l then header_name l else category_at ls)"
  by (simp add: category_at_def)

lemma writes_snoc:
  "writes (ls @ [l]) =
     writes ls @ (if is_keyvalue l then [(category_at ls, key_of l, value_of l)] else [])"
proof -
  have m: "map (\<lambda>i. if is_keyvalue ((ls @ [l]) ! i)
                  then [(category_at (take i (ls @ [l])), key_of ((ls @ [l]) ! i), value_of ((ls @ [l]) ! i))]
                  else []) [0..<length ls] =
        map (\<lambda>i. if is_keyvalue (ls ! i)
                  then [(category_at (take i ls), key_of (ls ! i), value_of (ls ! i))]
                  else []) [0..<length ls]"
    by (rule map_cong) (auto simp: nth_append)
  show ?thesis
    by (simp add: writes_def m)
qed

lemma last_write_snoc:
  "last_write (ws @ [w]) c k =
     (if fst w = c \<and> fst (snd w) = k then Some (snd (snd w)) else last_write ws c k)"
  by (simp add: last_write_def)

lemma parse_lines_invariant:
  "snd (foldl parse_line (Map.empty, ''Default'') ls) = category_at ls \<and>
   (\<forall>c k. lookup (fst (foldl parse_line (Map.empty, ''Default'') ls)) c k = last_write (writes ls) c k) \<and>
   dom (fst (foldl parse_line (Map.empty, ''Default'') ls)) = fst ` set (writes ls)"
proof (induction ls rule: rev_induct)
  case Nil
  show ?case
    by (simp add: category_at_def writes_def last_write_def lookup_def)
next
  case (snoc l ls)
  obtain d c where st: "foldl parse_line (Map.empty, ''Default'') ls = (d, c)"
    by (cases "foldl parse_line (Map.empty, ''Default'') ls")
  with snoc have c: "c = category_at ls"
    and lk: "\<And>c' k. lookup d c' k = last_write (writes ls) c' k"
    and dm: "dom d = fst ` set (writes ls)"
    by simp_all
  show ?case
    by (simp add: st parse_line_cases category_at_snoc writes_snoc last_write_snoc lookup_store
        dom_store lk dm c is_keyvalue_def)
qed

text \<open>
  Claim C6. After \<^verbatim>\<open>Parse\<close>, the value found under a category and a key is the value of the
  last key/value line with that key among the lines filed under that category, where a line
  is filed under \<^verbatim>\<open>"Default"\<close> when no header precedes it and under the trimmed inner text
  of the nearest preceding header otherwise. The categories of the document are those of the
  key/value lines: a header stores nothing. The current category at the end of the text is
  the one in force after all its lines.
\<close>

theorem Parse_sections:
  "GetString (snd (Parse text s)) c k = last_write (writes (lines_of text)) c k \<and>
   dom (m_data (snd (Parse text s))) = fst ` set (writes (lines_of text)) \<and>
   snd (parse_loop text (Map.empty, ''Default'')) = category_at (lines_of text)"
  using parse_lines_invariant [of "lines_of text"]
  by (simp add: GetString_lookup Parse_def parse_loop_lines)

theorem Parse_sections_witness:
  "GetString (snd (Parse sample_text Settings_init)) ''Default'' ''a'' = Some ''1'' \<and>
   GetString (snd (Parse sample_text Settings_init)) ''S'' ''b'' = Some ''3'' \<and>
   GetString (snd (Parse sample_text Settings_init)) ''T'' ''b'' = Some ''4'' \<and>
   GetString (snd (Parse sample_text Settings_init)) ''Default'' ''b'' = None \<and>
   dom (m_data (snd (Parse sample_text Settings_init))) = {''Default'', ''S'', ''T''}"
proof -
  have w: "writes (lines_of sample_text) =
      [(''Default'', ''a'', ''1''), (''S'', ''b'', ''2''), (''S'', ''b'', ''3''), (''T'', ''b'', ''4'')]"
    by code_simp
  show ?thesis
    using Parse_sections [of sample_text Settings_init "''Default''" "''a''"]
      Parse_sections [of sample_text Settings_init "''S''" "''b''"]
      Parse_sections [of sample_text Settings_init "''T''" "''b''"]
      Parse_sections [of sample_text Settings_init "''Default''" "''b''"]
    by (auto simp add: w last_write_def)
qed

subsection \<open>Saving and parsing again\<close>

lemma find_char_append:
  "c \<notin> set l \<Longrightarrow> find_char c (l @ c # r) = Some (length l)"
  by (induction l) auto

lemma lines_of_Nil: "lines_of [] = []"
  by (simp add: lines_of.simps [of "[]"] getline_def)

lemma lines_of_line:
  "CHR 0x0A \<notin> set l \<Longrightarrow> lines_of (l @ CHR 0x0A # r) = l # lines_of r"
  by (subst lines_of.simps) (simp add: getline_def find_char_append)

lemma lines_of_kvs:
  "list_all (\<lambda>kv. CHR 0x0A \<notin> set (fst kv) \<and> CHR 0x0A \<notin> set (snd kv)) kvs \<Longrightarrow>
   lines_of (concat (map (\<lambda>(k, v). k @ ''='' @ v @ [CHR 0x0A]) kvs) @ r) =
     map (\<lambda>kv. fst kv @ ''='' @ snd kv) kvs @ lines_of r"
proof (induction kvs)
  case Nil
  then show ?case by simp
next
  case (Cons kv kvs)
  obtain k v where kv: "kv = (k, v)" by (cases kv)
  have "CHR 0x0A \<notin> set (k @ ''='' @ v)"
    using Cons.prems by (simp add: kv)
  from lines_of_line [OF this] Cons show ?case
    by (simp add: kv)
qed

lemma lines_of_category:
  assumes "CHR 0x0A \<notin> set (fst ckv)"
    and "list_all (\<lambda>kv. CHR 0x0A \<notin> set (fst kv) \<and> CHR 0x0A \<notin> set (snd kv)) (snd ckv)"
  shows "lines_of (save_category ckv @ r) = block_lines ckv @ lines_of r"
proof -
  have h: "CHR 0x0A \<notin> set (''['' @ fst ckv @ '']'')"
    using assms(1) by simp
  have e: "CHR 0x0A \<notin> set ([] :: string)"
    by simp
  show ?thesis
    using lines_of_line [OF h] lines_of_kvs [OF assms(2)] lines_of_line [OF e]
    by (simp add: save_category_def block_lines_def)
qed

lemma lines_of_save_text:
  "list_all (\<lambda>ckv. CHR 0x0A \<notin> set (fst ckv) \<and>
      list_all (\<lambda>kv. CHR 0x0A \<notin> set (fst kv) \<and> CHR 0x0A \<notin> set (snd kv)) (snd ckv)) items \<Longrightarrow>
   lines_of (save_text items) = concat (map block_lines items)"
proof (induction items)
  case Nil
  then show ?case by (simp add: save_text_def lines_of_Nil)
next
  case (Cons ckv items)
  then show ?case
    using lines_of_category [of ckv "save_text items"]
    by (simp add: save_text_def)
qed

lemma trim_trimmed: "trimmed s \<Longrightarrow> trim s = s"
proof (cases "s = []")
  case True
  then show ?thesis by (simp add: trim_def)
next
  case False
  assume "trimmed s"
  with False have h: "\<not> isspace (hd s)" and l: "\<not> isspace (last s)"
    by (simp_all add: trimmed_def)
  from False h have a: "dropWhile isspace s = s"
    by (cases s) auto
  from False l have b: "dropWhile isspace (rev s) = rev s"
    by (cases s rule: rev_cases) auto
  show ?thesis
    by (simp add: trim_def a b)
qed

lemma before_comment_id:
  "CHR '';'' \<notin> set s \<Longrightarrow> CHR ''#'' \<notin> set s \<Longrightarrow> before_comment s = s"
  by (auto simp: before_comment_def takeWhile_eq_all_conv)

lemma clean_line_id:
  "CHR '';'' \<notin> set s \<Longrightarrow> CHR ''#'' \<notin> set s \<Longrightarrow> trimmed s \<Longrightarrow> clean_line s = s"
  by (simp add: clean_line_def before_comment_id trim_trimmed)

lemma not_space_brackets: "\<not> isspace (CHR ''['')" "\<not> isspace (CHR '']'')" "\<not> isspace (CHR ''='')"
  by (simp_all add: isspace_def)

lemma parse_header_line:
  assumes "wf_category c"
  shows "parse_line (d, c0) (CHR ''['' # c @ '']'') = (d, c)"
proof -
  let ?l = "CHR ''['' # c @ '']''"
  have cl: "clean_line ?l = ?l"
    using assms
    by (intro clean_line_id) (auto simp: wf_category_def no_special_def trimmed_def not_space_brackets)
  have hd: "is_header ?l"
    by (simp add: is_header_def cl Let_def)
  have "butlast (tl ?l) = c"
    by (simp add: butlast_append)
  then have "header_name ?l = c"
    using assms by (simp add: header_name_def cl wf_category_def trim_trimmed)
  then show ?thesis
    using hd by (simp add: parse_line_cases)
qed

lemma parse_kv_line:
  assumes "wf_key k" and "wf_value v"
  shows "parse_line (d, c) (k @ CHR ''='' # v) = (store d c k v, c)"
proof -
  let ?l = "k @ CHR ''='' # v"
  from assms(1) have kne: "k \<noteq> []" and ksp: "no_special k" and ktr: "trimmed k"
    and keq: "CHR ''='' \<notin> set k" and khd: "hd k \<noteq> CHR ''[''"
    by (simp_all add: wf_key_def)
  from assms(2) have vsp: "no_special v" and vtr: "trimmed v"
    by (simp_all add: wf_value_def)
  have tr: "trimmed ?l"
    using kne ktr vtr by (cases "v = []") (auto simp: trimmed_def not_space_brackets)
  have cl: "clean_line ?l = ?l"
    using ksp vsp tr by (intro clean_line_id) (auto simp: no_special_def)
  have nh: "\<not> is_header ?l"
    using kne khd by (simp add: is_header_def cl Let_def)
  have kv: "is_keyvalue ?l"
    using nh by (simp add: is_keyvalue_def cl)
  have tk: "takeWhile (\<lambda>c. c \<noteq> CHR ''='') ?l = k"
    using keq by (induction k) auto
  have dk: "dropWhile (\<lambda>c. c \<noteq> CHR ''='') ?l = CHR ''='' # v"
    using keq by (induction k) auto
  have "key_of ?l = k"
    using ktr by (simp only: key_of_def cl tk trim_trimmed)
  moreover have "value_of ?l = v"
    using vtr by (simp add: value_of_def cl dk trim_trimmed)
  ultimately show ?thesis
    using nh kv by (simp add: parse_line_cases)
qed

lemma parse_blank_line: "parse_line (d, c) [] = (d, c)"
  by (simp add: parse_line_cases is_header_def is_keyvalue_def clean_line_def before_comment_def trim_def)

lemma parse_kv_lines:
  "list_all (\<lambda>kv. wf_key (fst kv) \<and> wf_value (snd kv)) kvs \<Longrightarrow>
   foldl parse_line (d, c) (map (\<lambda>kv. fst kv @ CHR ''='' # snd kv) kvs) = (store_all d c kvs, c)"
proof (induction kvs arbitrary: d)
  case Nil
  then show ?case by (simp add: store_all_def)
next
  case (Cons kv kvs)
  then show ?case
    by (simp add: store_all_def parse_kv_line)
qed

lemma parse_block:
  assumes "wf_category (fst ckv)"
    and "list_all (\<lambda>kv. wf_key (fst kv) \<and> wf_value (snd kv)) (snd ckv)"
  shows "foldl parse_line (d, c0) (block_lines ckv) = (store_all d (fst ckv) (snd ckv), fst ckv)"
  using assms
  by (simp add: block_lines_def parse_header_line parse_kv_lines parse_blank_line)

lemma store_all_eq:
  "kvs \<noteq> [] \<Longrightarrow>
   store_all d c kvs = d(c \<mapsto> (case d c of None \<Rightarrow> Map.empty | Some m \<Rightarrow> m) ++ map_of (rev kvs))"
proof (induction kvs arbitrary: d)
  case Nil
  then show ?case by simp
next
  case (Cons kv kvs)
  let ?base = "case d c of None \<Rightarrow> Map.empty | Some m \<Rightarrow> m"
  let ?d1 = "store d c (fst kv) (snd kv)"
  have d1: "?d1 = d(c \<mapsto> ?base(fst kv \<mapsto> snd kv))"
    by (simp add: store_def)
  show ?case
  proof (cases "kvs = []")
    case True
    then show ?thesis
      by (auto simp: store_all_def d1 map_add_def fun_eq_iff split: option.splits)
  next
    case False
    have "store_all d c (kv # kvs) = store_all ?d1 c kvs"
      by (simp add: store_all_def)
    also have "\<dots> = ?d1(c \<mapsto> (case ?d1 c of None \<Rightarrow> Map.empty | Some m \<Rightarrow> m) ++ map_of (rev kvs))"
      by (rule Cons.IH [OF False])
    also have "\<dots> = d(c \<mapsto> ?base ++ map_of (rev (kv # kvs)))"
      by (cases kv) (simp add: store_def)
    finally show ?thesis .
  qed
qed

lemma map_of_rev_distinct: "distinct (map fst xs) \<Longrightarrow> map_of (rev xs) = map_of xs"
proof (induction xs)
  case Nil
  then show ?case by simp
next
  case (Cons x xs)
  then have "fst x \<notin> dom (map_of xs)"
    by (simp add: dom_map_of_conv_image_fst)
  then have "map_of [x] ++ map_of xs = (map_of xs)(fst x \<mapsto> snd x)"
    by (cases x) (auto simp: map_add_def fun_eq_iff split: option.splits)
  with Cons show ?case
    by (cases x) simp
qed

lemma store_all_fresh:
  assumes "kvs \<noteq> []" and "distinct (map fst kvs)" and "d c = None"
  shows "store_all d c kvs = d(c \<mapsto> map_of kvs)"
  using assms by (simp add: store_all_eq map_of_rev_distinct)

lemma parse_blocks:
  "wf_items items \<Longrightarrow>
   fst (foldl parse_line (d, c0) (concat (map block_lines items))) = store_items d items"
proof (induction items arbitrary: d c0)
  case Nil
  then show ?case by (simp add: store_items_def)
next
  case (Cons ckv items)
  then show ?case
    by (simp add: store_items_def wf_items_def parse_block)
qed

lemma store_items_eq:
  "distinct (map fst items) \<Longrightarrow>
   list_all (\<lambda>ckv. snd ckv \<noteq> [] \<and> distinct (map fst (snd ckv))) items \<Longrightarrow>
   (\<And>c. c \<in> fst ` set items \<Longrightarrow> d c = None) \<Longrightarrow>
   store_items d items = d ++ map_of (map (\<lambda>ckv. (fst ckv, map_of (snd ckv))) items)"
proof (induction items arbitrary: d)
  case Nil
  then show ?case by (simp add: store_items_def)
next
  case (Cons ckv items)
  let ?c = "fst ckv"
  let ?d1 = "d(?c \<mapsto> map_of (snd ckv))"
  have s: "store_all d ?c (snd ckv) = ?d1"
    using Cons.prems by (intro store_all_fresh) auto
  have cn: "?c \<notin> fst ` set items"
    using Cons.prems(1) by simp
  have fresh: "\<And>c. c \<in> fst ` set items \<Longrightarrow> ?d1 c = None"
  proof -
    fix c assume c: "c \<in> fst ` set items"
    with cn have "c \<noteq> ?c" by blast
    moreover have "d c = None" using c Cons.prems(3) [of c] by simp
    ultimately show "?d1 c = None" by simp
  qed
  have ih: "store_items ?d1 items = ?d1 ++ map_of (map (\<lambda>ckv. (fst ckv, map_of (snd ckv))) items)"
    using Cons.prems by (intro Cons.IH fresh) auto
  have nc: "?c \<notin> dom (map_of (map (\<lambda>ckv. (fst ckv, map_of (snd ckv))) items))"
    using Cons.prems(1) by (auto simp: dom_map_of_conv_image_fst image_image)
  have "store_items d (ckv # items) = store_items ?d1 items"
    by (simp add: store_items_def s)
  also note ih
  also have "?d1 ++ map_of (map (\<lambda>ckv. (fst ckv, map_of (snd ckv))) items) =
     d ++ map_of (map (\<lambda>ckv. (fst ckv, map_of (snd ckv))) (ckv # items))"
    using nc by (auto simp: map_add_def fun_eq_iff split: option.splits)
  finally show ?case .
qed

lemma parse_save_text:
  assumes "iteration_of items (m_data s)" and "wf_items items"
  shows "m_data (snd (Parse (save_text items) s')) = m_data s"
proof -
  have nl: "list_all (\<lambda>ckv. CHR 0x0A \<notin> set (fst ckv) \<and>
      list_all (\<lambda>kv. CHR 0x0A \<notin> set (fst kv) \<and> CHR 0x0A \<notin> set (snd kv)) (snd ckv)) items"
    using assms(2)
    by (auto simp: wf_items_def list_all_iff wf_category_def wf_key_def wf_value_def no_special_def)
  have ne: "list_all (\<lambda>ckv. snd ckv \<noteq> [] \<and> distinct (map fst (snd ckv))) items"
    using assms by (auto simp: wf_items_def iteration_of_def list_all_iff)
  have "m_data (snd (Parse (save_text items) s')) = store_items Map.empty items"
    by (simp add: Parse_def parse_loop_lines lines_of_save_text [OF nl] parse_blocks [OF assms(2)])
  also have "\<dots> = Map.empty ++ map_of (map (\<lambda>ckv. (fst ckv, map_of (snd ckv))) items)"
    using assms(1) ne by (intro store_items_eq) (auto simp: iteration_of_def)
  finally show ?thesis
    using assms(1) by (simp add: iteration_of_def)
qed

subsection \<open>\<^verbatim>\<open>GetBool\<close>\<close>

lemma of_char_upper_of: "(of_char (upper_of b) :: nat) = of_char b - 32"
proof -
  have "(of_char b :: nat) - 32 < 256"
    by (rule less_imp_diff_less) (rule nat_of_char_less_256)
  then show ?thesis
    by (simp add: upper_of_def of_char_of)
qed

lemma char_eq_nat: "(a = b) = ((of_char a :: nat) = of_char b)"
  by simp

lemma tolower_eq_iff:
  assumes "\<not> isupper b"
  shows "tolower a = b \<longleftrightarrow> a = b \<or> (islower b \<and> a = upper_of b)"
proof -
  have la: "(of_char a :: nat) < 256"
    by (rule nat_of_char_less_256)
  have u: "(of_char (upper_of b) :: nat) = of_char b - 32"
    by (rule of_char_upper_of)
  show ?thesis
  proof (cases "isupper a")
    case True
    then have t: "(of_char (tolower a) :: nat) = of_char a + 32"
      using la by (simp add: tolower_def isupper_def Let_def)
    show ?thesis
      using True assms t u unfolding char_eq_nat [of "tolower a"] char_eq_nat [of a]
      by (auto simp: isupper_def islower_def Let_def)
  next
    case False
    then have t: "tolower a = a"
      by (auto simp: tolower_def isupper_def Let_def)
    show ?thesis
      using False u unfolding t char_eq_nat [of a "upper_of b"]
      by (auto simp: isupper_def islower_def Let_def)
  qed
qed

lemma map_tolower_eq_iff:
  "list_all (\<lambda>b. \<not> isupper b) w \<Longrightarrow> map tolower s = w \<longleftrightarrow> in_any_case w s"
  unfolding in_any_case_def
proof (induction s arbitrary: w)
  case Nil
  then show ?case by auto
next
  case (Cons a s)
  then show ?case
    by (cases w) (auto simp: tolower_eq_iff)
qed

lemma words_not_upper:
  "list_all (list_all (\<lambda>b. \<not> isupper b)) (true_words @ false_words)"
  by (simp add: true_words_def false_words_def isupper_def)

text \<open>
  Claim C4. \<^verbatim>\<open>GetBool(category, key, default)\<close> returns the default when the key is absent;
  otherwise it returns true when the stored string is one of "1", "true", "on", "yes" in any
  letter case, false when it is one of "0", "false", "off", "no" in any letter case, and the
  default for every other string.
\<close>

theorem GetBool_any_case:
  "GetBool s cat key def =
     (case GetString s cat key of
        None \<Rightarrow> def
      | Some str \<Rightarrow>
          if list_ex (\<lambda>w. in_any_case w str) true_words then True
          else if list_ex (\<lambda>w. in_any_case w str) false_words then False
          else def)"
proof (cases "GetString s cat key")
  case None
  then show ?thesis by (simp add: GetBool_def)
next
  case (Some str)
  have e: "\<And>w. w \<in> set (true_words @ false_words) \<Longrightarrow> (map tolower str = w) = in_any_case w str"
    using words_not_upper by (intro map_tolower_eq_iff) (simp add: list_all_iff)
  show ?thesis
    using Some e by (simp add: GetBool_def Let_def true_words_def false_words_def)
qed

text \<open>The examples of the specification: "TRUE", "On", "YES", "0", "off", "maybe", and no key.\<close>

theorem GetBool_any_case_witness:
  "GetBool (SetString Settings_init ''Render'' ''VSync'' ''TRUE'') ''Render'' ''VSync'' False = True \<and>
   GetBool (SetString Settings_init ''Render'' ''VSync'' ''On'') ''Render'' ''VSync'' False = True \<and>
   GetBool (SetString Settings_init ''Render'' ''VSync'' ''YES'') ''Render'' ''VSync'' False = True \<and>
   GetBool (SetString Settings_init ''Render'' ''VSync'' ''0'') ''Render'' ''VSync'' True = False \<and>
   GetBool (SetString Settings_init ''Render'' ''VSync'' ''off'') ''Render'' ''VSync'' True = False \<and>
   GetBool (SetString Settings_init ''Render'' ''VSync'' ''maybe'') ''Render'' ''VSync'' True = True \<and>
   GetBool (SetString Settings_init ''Render'' ''VSync'' ''maybe'') ''Render'' ''VSync'' False = False \<and>
   GetBool Settings_init ''Render'' ''VSync'' True = True \<and>
   GetBool Settings_init ''Render'' ''VSync'' False = False"
  unfolding GetBool_any_case
  by code_simp

subsection \<open>\<^verbatim>\<open>std::to_string(int)\<close> and \<^verbatim>\<open>std::stoi\<close>\<close>

lemma of_char_digit_char: "d < 10 \<Longrightarrow> (of_char (digit_char d) :: nat) = 48 + d"
  by (simp add: digit_char_def)

lemma isdigit_digit_char: "d < 10 \<Longrightarrow> isdigit (digit_char d)"
  by (simp add: isdigit_def of_char_digit_char)

lemma digit_val_digit_char: "d < 10 \<Longrightarrow> digit_val (digit_char d) = d"
  by (simp add: digit_val_def of_char_digit_char)

lemma isdigit_not_space: "isdigit c \<Longrightarrow> \<not> isspace c"
  unfolding isspace_def isdigit_def Let_def char_eq_nat [of c] by auto

lemma isdigit_not_sign: "isdigit c \<Longrightarrow> c \<noteq> CHR ''-'' \<and> c \<noteq> CHR ''+''"
  unfolding isdigit_def Let_def char_eq_nat [of c] by auto

lemma dec_digits_digits: "list_all isdigit (dec_digits n)"
proof (induction n rule: dec_digits.induct)
  case (1 n)
  then show ?case
    by (subst dec_digits.simps) (simp add: isdigit_digit_char)
qed

lemma dec_digits_nonempty: "dec_digits n \<noteq> []"
  by (subst dec_digits.simps) simp

lemma dec_value_snoc: "dec_value (ds @ [c]) = 10 * dec_value ds + digit_val c"
  by (simp add: dec_value_def)

lemma dec_value_dec_digits: "dec_value (dec_digits n) = n"
proof (induction n rule: dec_digits.induct)
  case (1 n)
  show ?case
  proof (cases "n < 10")
    case True
    then show ?thesis
      by (subst dec_digits.simps) (simp add: dec_value_def digit_val_digit_char)
  next
    case False
    with 1 have "dec_value (dec_digits (n div 10)) = n div 10"
      by simp
    with False show ?thesis
      by (subst dec_digits.simps) (simp add: dec_value_snoc digit_val_digit_char)
  qed
qed

lemma takeWhile_digits:
  "list_all isdigit ds \<Longrightarrow> t = [] \<or> \<not> isdigit (hd t) \<Longrightarrow> takeWhile isdigit (ds @ t) = ds"
  by (induction ds) (auto simp: takeWhile_eq_Nil_iff  neq_Nil_conv)

lemma hd_dec_digits: "isdigit (hd (dec_digits n))"
  using dec_digits_digits [of n] dec_digits_nonempty [of n]
  by (cases "dec_digits n") auto

lemma sint_range32: "- (2 ^ 31) \<le> sint (v :: 32 word) \<and> sint v \<le> 2 ^ 31 - 1"
  using sint_ge [of v] sint_lt [of v] by simp

lemma stoi_digits:
  assumes "list_all isdigit ds" and "ds \<noteq> []" and "t = [] \<or> \<not> isdigit (hd t)"
  shows "stoi (ds @ t) =
           (if int (dec_value ds) \<le> 2 ^ 31 - 1 then Some (word_of_int (int (dec_value ds))) else None)"
proof -
  have tw: "takeWhile isdigit (ds @ t) = ds"
    using assms(1,3) by (rule takeWhile_digits)
  have hd: "isdigit (hd ds)"
    using assms(1,2) by (cases ds) auto
  have hda: "hd (ds @ t) = hd ds"
    using assms(2) by simp
  have d: "dropWhile isspace (ds @ t) = ds @ t"
    using assms(2) hd isdigit_not_space [of "hd ds"] by (cases ds) auto
  have sg: "hd (ds @ t) \<noteq> CHR ''-''" "hd (ds @ t) \<noteq> CHR ''+''"
    using hd isdigit_not_sign [of "hd ds"] hda by simp_all
  show ?thesis
    unfolding stoi_def d Let_def using sg assms(2) by (simp add: tw)
qed

lemma stoi_neg_digits:
  assumes "list_all isdigit ds" and "ds \<noteq> []" and "t = [] \<or> \<not> isdigit (hd t)"
  shows "stoi (CHR ''-'' # ds @ t) =
           (if int (dec_value ds) \<le> 2 ^ 31 then Some (word_of_int (- int (dec_value ds))) else None)"
proof -
  have tw: "takeWhile isdigit (ds @ t) = ds"
    using assms(1,3) by (rule takeWhile_digits)
  have d: "dropWhile isspace (CHR ''-'' # ds @ t) = CHR ''-'' # ds @ t"
    by (simp add: isspace_def)
  show ?thesis
    unfolding stoi_def d Let_def using assms(2) by (simp add: tw)
qed

lemma dropWhile_spaces: "list_all isspace ws \<Longrightarrow> dropWhile isspace (ws @ u) = dropWhile isspace u"
  by (induction ws) auto

lemma stoi_spaces: "list_all isspace ws \<Longrightarrow> stoi (ws @ u) = stoi u"
  by (simp add: stoi_def dropWhile_spaces)

lemma stod_spaces: "list_all isspace ws \<Longrightarrow> stod tiny (ws @ u) = stod tiny u"
  by (simp add: stod_def dropWhile_spaces)

lemma stoi_plus_digits:
  assumes "list_all isdigit ds" and "ds \<noteq> []" and "t = [] \<or> \<not> isdigit (hd t)"
  shows "stoi (CHR ''+'' # ds @ t) =
           (if int (dec_value ds) \<le> 2 ^ 31 - 1 then Some (word_of_int (int (dec_value ds))) else None)"
proof -
  have tw: "takeWhile isdigit (ds @ t) = ds"
    using assms(1,3) by (rule takeWhile_digits)
  have d: "dropWhile isspace (CHR ''+'' # ds @ t) = CHR ''+'' # ds @ t"
    by (simp add: isspace_def)
  show ?thesis
    unfolding stoi_def d Let_def using assms(2) by (simp add: tw)
qed

lemma stoi_signed:
  assumes "sg = [] \<or> sg = ''+'' \<or> sg = ''-''"
    and "list_all isdigit ds" and "ds \<noteq> []" and "t = [] \<or> \<not> isdigit (hd t)"
  shows "stoi (sg @ ds @ t) =
           (if in_int_range (apply_sign sg (dec_value ds))
            then Some (word_of_int (apply_sign sg (dec_value ds))) else None)"
  using assms(1) stoi_digits [OF assms(2-4)] stoi_plus_digits [OF assms(2-4)]
    stoi_neg_digits [OF assms(2-4)]
  by (auto simp: in_int_range_def apply_sign_def)

lemma stoi_no_digits:
  assumes "sg = [] \<or> sg = ''+'' \<or> sg = ''-''"
    and "t = [] \<or> \<not> isdigit (hd t)"
    and "sg = [] \<longrightarrow> t = [] \<or> \<not> (isspace (hd t) \<or> hd t = CHR ''+'' \<or> hd t = CHR ''-'')"
  shows "stoi (sg @ t) = None"
proof -
  have tw: "takeWhile isdigit t = []"
    using assms(2) by (cases t) auto
  from assms(1) consider "sg = []" | "sg = ''+''" | "sg = ''-''" by blast
  then show ?thesis
  proof cases
    case 1
    with assms(3) have d: "dropWhile isspace t = t"
      by (cases t) auto
    from 1 assms(2,3) show ?thesis
      by (cases t) (auto simp: stoi_def Let_def)
  next
    case 2
    then show ?thesis
      by (simp add: stoi_def isspace_def tw)
  next
    case 3
    then show ?thesis
      by (simp add: stoi_def isspace_def tw)
  qed
qed

lemma stoi_to_string_int:
  assumes "t = [] \<or> \<not> isdigit (hd t)"
  shows "stoi (to_string_int v @ t) = Some v"
proof (cases "sint v < 0")
  case True
  let ?ds = "dec_digits (nat (- sint v))"
  have s: "to_string_int v @ t = CHR ''-'' # ?ds @ t"
    using True by (simp add: to_string_int_def)
  have n: "int (dec_value ?ds) = - sint v"
    using True by (simp add: dec_value_dec_digits)
  have "- sint v \<le> 2 ^ 31"
    using sint_range32 [of v] by simp
  then show ?thesis
    unfolding s stoi_neg_digits [OF dec_digits_digits dec_digits_nonempty assms] n by simp
next
  case False
  let ?ds = "dec_digits (nat (sint v))"
  have s: "to_string_int v @ t = ?ds @ t"
    using False by (simp add: to_string_int_def)
  have n: "int (dec_value ?ds) = sint v"
    using False by (simp add: dec_value_dec_digits)
  have "sint v \<le> 2 ^ 31 - 1"
    using sint_range32 [of v] by simp
  then show ?thesis
    unfolding s stoi_digits [OF dec_digits_digits dec_digits_nonempty assms] n by simp
qed

subsection \<open>Rounding to the nearest integer\<close>

lemma round_even_of_int: "round_even (of_int k) = k"
  by (simp add: round_even_def)

lemma round_even_disj:
  "(round_even y = \<lfloor>y\<rfloor> \<and> y - of_int \<lfloor>y\<rfloor> \<le> 1 / 2) \<or>
   (round_even y = \<lfloor>y\<rfloor> + 1 \<and> 1 / 2 \<le> y - of_int \<lfloor>y\<rfloor>)"
proof -
  let ?r = "y - of_int \<lfloor>y\<rfloor>"
  consider "?r < 1 / 2" | "1 / 2 < ?r" | "?r = 1 / 2"
    by linarith
  then show ?thesis
  proof cases
    case 1
    then show ?thesis by (simp add: round_even_def Let_def)
  next
    case 2
    then show ?thesis by (simp add: round_even_def Let_def)
  next
    case 3
    then show ?thesis by (simp add: round_even_def Let_def)
  qed
qed

lemma round_even_cases:
  obtains "round_even y = \<lfloor>y\<rfloor>" "y - of_int \<lfloor>y\<rfloor> \<le> 1 / 2"
  | "round_even y = \<lfloor>y\<rfloor> + 1" "1 / 2 \<le> y - of_int \<lfloor>y\<rfloor>"
  using round_even_disj [of y] by blast

lemma round_even_half: "\<bar>of_int (round_even y) - y\<bar> \<le> 1 / 2"
proof (cases y rule: round_even_cases)
  case 1
  have "of_int \<lfloor>y\<rfloor> \<le> y" by simp
  with 1 show ?thesis by simp
next
  case 2
  have "y < of_int \<lfloor>y\<rfloor> + 1" by linarith
  with 2 show ?thesis by simp
qed

lemma round_even_nearest: "\<bar>of_int (round_even y) - y\<bar> \<le> \<bar>of_int k - y\<bar>"
proof (cases "k \<le> \<lfloor>y\<rfloor>")
  case True
  then have "(of_int k :: rat) \<le> of_int \<lfloor>y\<rfloor>" by simp
  moreover have "of_int \<lfloor>y\<rfloor> \<le> y" by simp
  ultimately have k: "\<bar>of_int k - y\<bar> \<ge> y - of_int \<lfloor>y\<rfloor>" by linarith
  show ?thesis
  proof (cases y rule: round_even_cases)
    case 1
    then show ?thesis using k by simp
  next
    case 2
    have "y < of_int \<lfloor>y\<rfloor> + 1" by linarith
    with 2 k show ?thesis by simp
  qed
next
  case False
  then have "\<lfloor>y\<rfloor> + 1 \<le> k" by simp
  then have "(of_int (\<lfloor>y\<rfloor> + 1) :: rat) \<le> of_int k" by (simp only: of_int_le_iff)
  moreover have "y < of_int \<lfloor>y\<rfloor> + 1" by linarith
  ultimately have k: "\<bar>of_int k - y\<bar> \<ge> of_int \<lfloor>y\<rfloor> + 1 - y" by simp
  show ?thesis
  proof (cases y rule: round_even_cases)
    case 1
    have "of_int \<lfloor>y\<rfloor> \<le> y" by simp
    with 1 k show ?thesis by simp
  next
    case 2
    have "y < of_int \<lfloor>y\<rfloor> + 1" by linarith
    with 2 k show ?thesis by simp
  qed
qed

lemma round_even_minus: "round_even (- y) = - round_even y"
proof (cases "of_int \<lfloor>y\<rfloor> = y")
  case True
  then obtain k where "y = of_int k" by metis
  then show ?thesis
    by (simp add: round_even_of_int flip: of_int_minus)
next
  case False
  have f: "\<lfloor>- y\<rfloor> = - \<lfloor>y\<rfloor> - 1"
    using False by (simp add: floor_minus ceiling_altdef)
  have lt: "of_int \<lfloor>y\<rfloor> < y"
    using False by (simp add: less_le)
  show ?thesis
    unfolding round_even_def Let_def f using lt
    by (auto simp: algebra_simps)
qed

lemma round_even_nonneg: "0 \<le> y \<Longrightarrow> 0 \<le> round_even y"
  by (cases y rule: round_even_cases) auto

lemma round_even_mono_int:
  assumes "of_int k \<le> y"
  shows "k \<le> round_even y"
proof -
  from assms have "k \<le> \<lfloor>y\<rfloor>"
    by (simp add: le_floor_iff)
  then show ?thesis
    by (cases y rule: round_even_cases) simp_all
qed

subsection \<open>Binades\<close>

lemma powi_nat: "0 \<le> e \<Longrightarrow> (2::rat) powi e = 2 ^ nat e"
  by (simp add: power_int_def)

lemma powi_less_iff: "(2::rat) powi a < 2 powi b \<longleftrightarrow> a < b"
proof
  assume l: "(2::rat) powi a < 2 powi b"
  show "a < b"
  proof (rule ccontr)
    assume "\<not> a < b"
    then have "b \<le> a" by simp
    then have "(2::rat) powi b \<le> 2 powi a"
      by (rule power_int_increasing) simp
    with l show False by simp
  qed
next
  assume "a < b"
  then show "(2::rat) powi a < 2 powi b"
    by (rule power_int_strict_increasing) simp
qed

lemma powi_le_iff: "(2::rat) powi a \<le> 2 powi b \<longleftrightarrow> a \<le> b"
  using powi_less_iff [of b a] by (auto simp: not_less [symmetric])

lemma binade_bounds:
  assumes "x \<noteq> 0"
  shows "2 powi binade x \<le> \<bar>x\<bar> \<and> \<bar>x\<bar> < 2 powi (binade x + 1)"
proof (cases "1 \<le> \<bar>x\<bar>")
  case True
  let ?n = "\<lfloor>\<bar>x\<bar>\<rfloor>"
  have n: "0 < ?n"
    using True by simp
  have b: "1 \<le> bitlen ?n"
    using n by (simp add: bitlen_alt_def)
  have e: "binade x = bitlen ?n - 1"
    using True by (simp add: binade_def)
  from bitlen_bounds [OF n] have lo: "2 ^ nat (bitlen ?n - 1) \<le> ?n" and hi: "?n < 2 ^ nat (bitlen ?n)"
    by simp_all
  have "(of_int (2 ^ nat (bitlen ?n - 1)) :: rat) \<le> of_int ?n"
    using lo by (simp only: of_int_le_iff)
  also have "\<dots> \<le> \<bar>x\<bar>"
    by simp
  finally have l: "2 powi binade x \<le> \<bar>x\<bar>"
    using b by (simp add: e powi_nat)
  have "?n + 1 \<le> 2 ^ nat (bitlen ?n)"
    using hi by simp
  then have "(of_int (?n + 1) :: rat) \<le> of_int (2 ^ nat (bitlen ?n))"
    by (simp only: of_int_le_iff)
  moreover have "\<bar>x\<bar> < of_int (?n + 1)"
    using floor_correct [of "\<bar>x\<bar>"] by simp
  ultimately have "\<bar>x\<bar> < of_int (2 ^ nat (bitlen ?n))"
    by (rule less_le_trans [rotated])
  then have u: "\<bar>x\<bar> < 2 powi (binade x + 1)"
    using b by (simp add: e powi_nat)
  from l u show ?thesis ..
next
  case False
  let ?y = "1 / \<bar>x\<bar>"
  let ?m = "\<lceil>?y\<rceil>"
  let ?b = "bitlen (?m - 1)"
  have xp: "0 < \<bar>x\<bar>"
    using assms by simp
  have y1: "1 < ?y"
    using False xp by simp
  then have m: "0 < ?m - 1"
    by (simp add: less_ceiling_iff)
  have b: "1 \<le> ?b"
    using m by (simp add: bitlen_alt_def)
  have e: "binade x = - ?b"
    using False by (simp add: binade_def)
  from bitlen_bounds [OF m] have lo: "2 ^ nat (?b - 1) \<le> ?m - 1" and hi: "?m - 1 < 2 ^ nat ?b"
    by simp_all
  have "?m \<le> 2 ^ nat ?b"
    using hi by simp
  then have "(of_int ?m :: rat) \<le> of_int (2 ^ nat ?b)"
    by (simp only: of_int_le_iff)
  with le_of_int_ceiling [of ?y] have "?y \<le> of_int (2 ^ nat ?b)"
    by (rule order_trans)
  then have "?y \<le> 2 ^ nat ?b"
    by simp
  then have "1 \<le> 2 ^ nat ?b * \<bar>x\<bar>"
    using xp by (simp add: pos_divide_le_eq)
  then have "1 / 2 ^ nat ?b \<le> \<bar>x\<bar>"
    by (simp add: pos_divide_le_eq mult.commute)
  then have l: "2 powi binade x \<le> \<bar>x\<bar>"
    using b by (simp add: e power_int_minus_divide powi_nat)
  have "(of_int (2 ^ nat (?b - 1)) :: rat) \<le> of_int (?m - 1)"
    using lo by (simp only: of_int_le_iff)
  moreover have "of_int (?m - 1) < ?y"
    using of_int_ceiling_diff_one_le [of ?y] ceiling_correct [of ?y] by simp
  ultimately have "2 ^ nat (?b - 1) < ?y"
    by simp
  then have "2 ^ nat (?b - 1) * \<bar>x\<bar> < 1"
    using xp by (simp add: pos_less_divide_eq)
  then have "\<bar>x\<bar> < 1 / 2 ^ nat (?b - 1)"
    by (simp add: pos_less_divide_eq mult.commute)
  moreover have "(2::rat) powi (binade x + 1) = 1 / 2 ^ nat (?b - 1)"
  proof -
    have "binade x + 1 = - (?b - 1)"
      by (simp add: e)
    then show ?thesis
      using b by (simp only: power_int_minus_divide) (simp add: powi_nat)
  qed
  ultimately have u: "\<bar>x\<bar> < 2 powi (binade x + 1)"
    by simp
  from l u show ?thesis ..
qed

lemma binade_minus: "binade (- x) = binade x"
  by (simp add: binade_def)

lemma binade_unique:
  assumes "2 powi e \<le> \<bar>x\<bar>" and "\<bar>x\<bar> < 2 powi (e + 1)"
  shows "binade x = e"
proof -
  have "(0::rat) < 2 powi e"
    by simp
  with assms(1) have "0 < \<bar>x\<bar>"
    by linarith
  then have x: "x \<noteq> 0"
    by simp
  note b = binade_bounds [OF x]
  have "2 powi e < (2::rat) powi (binade x + 1)"
    using assms(1) b by linarith
  then have 1: "e < binade x + 1"
    by (simp add: powi_less_iff)
  have "2 powi binade x < (2::rat) powi (e + 1)"
    using assms(2) b by linarith
  then have 2: "binade x < e + 1"
    by (simp add: powi_less_iff)
  from 1 2 show ?thesis by simp
qed

subsection \<open>Rounding to binary64: nearest, and the identity on binary64 values\<close>

lemma ulp_exp_minus: "ulp_exp (- x) = ulp_exp x"
  by (simp add: ulp_exp_def binade_minus)

lemma round_binary64_minus: "round_binary64 (- x) = - round_binary64 x"
  by (simp add: round_binary64_def ulp_exp_minus round_even_minus)

lemma is_integerE:
  assumes "is_integer z"
  obtains k where "z = of_int k"
  using assms unfolding is_integer_def by metis

lemma is_integer_of_int: "is_integer (of_int k)"
  by (simp add: is_integer_def)

lemma powi_split:
  assumes "a \<le> b"
  shows "(2::rat) powi b = of_int (2 ^ nat (b - a)) * 2 powi a"
proof -
  have "(2::rat) powi b = 2 powi ((b - a) + a)"
    by simp
  also have "\<dots> = 2 powi (b - a) * 2 powi a"
    by (rule power_int_add) simp
  also have "2 powi (b - a) = (2::rat) ^ nat (b - a)"
    using assms by (simp add: powi_nat)
  finally show ?thesis
    by simp
qed

lemma multiple_nearest:
  assumes "0 < (u::rat)"
  shows "\<bar>of_int (round_even (y / u)) * u - y\<bar> \<le> \<bar>of_int k * u - y\<bar>"
proof -
  have s: "\<And>j. \<bar>of_int j * u - y\<bar> = \<bar>of_int j - y / u\<bar> * u"
  proof -
    fix j :: int
    have "of_int j * u - y = (of_int j - y / u) * u"
      using assms by (simp add: field_simps)
    then show "\<bar>of_int j * u - y\<bar> = \<bar>of_int j - y / u\<bar> * u"
      using assms by (simp add: abs_mult)
  qed
  have "\<bar>of_int (round_even (y / u)) - y / u\<bar> * u \<le> \<bar>of_int k - y / u\<bar> * u"
    using round_even_nearest [of "y / u" k] assms by (simp add: mult_right_mono)
  then show ?thesis
    by (simp only: s)
qed

lemma round_binary64_multiple:
  assumes "y \<noteq> 0"
  shows "\<bar>round_binary64 y - y\<bar> \<le> \<bar>of_int k * 2 powi ulp_exp y - y\<bar>"
  using assms multiple_nearest [of "2 powi ulp_exp y" y k]
  by (simp add: round_binary64_def)

lemma binary64_multiple:
  assumes "is_binary64 d" and "d \<noteq> 0" and "a \<le> ulp_exp d"
  obtains k where "d = of_int k * 2 powi a"
proof -
  from assms(1,2) have "is_integer (d / 2 powi ulp_exp d)"
    by (simp add: is_binary64_def)
  then obtain j where j: "d / 2 powi ulp_exp d = of_int j"
    by (rule is_integerE)
  then have "d = of_int j * 2 powi ulp_exp d"
    by (simp add: field_simps)
  also have "\<dots> = of_int j * (of_int (2 ^ nat (ulp_exp d - a)) * 2 powi a)"
    by (simp only: powi_split [OF assms(3)])
  also have "\<dots> = of_int (j * 2 ^ nat (ulp_exp d - a)) * 2 powi a"
    by simp
  finally show ?thesis
    by (rule that)
qed

lemma round_binary64_nearest:
  assumes "is_binary64 d"
  shows "\<bar>round_binary64 y - y\<bar> \<le> \<bar>d - y\<bar>"
proof (cases "y = 0")
  case True
  then show ?thesis by (simp add: round_binary64_def)
next
  case y: False
  show ?thesis
  proof (cases "d = 0")
    case True
    then show ?thesis
      using round_binary64_multiple [OF y, of 0] by simp
  next
    case d: False
    show ?thesis
    proof (cases "ulp_exp y \<le> ulp_exp d")
      case True
      from binary64_multiple [OF assms d True] obtain k where "d = of_int k * 2 powi ulp_exp y" .
      then show ?thesis
        using round_binary64_multiple [OF y, of k] by simp
    next
      case False
      then have lt: "max (binade d) (- 1022) < max (binade y) (- 1022)"
        unfolding ulp_exp_def by linarith
      then have ey: "max (binade y) (- 1022) = binade y" and bd: "binade d < binade y"
        unfolding max_def by (auto split: if_splits)
      have "\<bar>d\<bar> < 2 powi (binade d + 1)"
        using binade_bounds [OF d] by simp
      also have "\<dots> \<le> 2 powi binade y"
        using bd by (simp add: powi_le_iff)
      finally have dlt: "\<bar>d\<bar> < 2 powi binade y" .
      have yge: "2 powi binade y \<le> \<bar>y\<bar>"
        using binade_bounds [OF y] by simp
      have e: "ulp_exp y \<le> binade y"
        by (simp add: ulp_exp_def ey)
      have p: "(2::rat) powi binade y = of_int (2 ^ nat (binade y - ulp_exp y)) * 2 powi ulp_exp y"
        by (rule powi_split [OF e])
      show ?thesis
      proof (cases "0 < y")
        case True
        have "\<bar>round_binary64 y - y\<bar> \<le> \<bar>2 powi binade y - y\<bar>"
          using round_binary64_multiple [OF y, of "2 ^ nat (binade y - ulp_exp y)"] p by simp
        also have "\<dots> = y - 2 powi binade y"
          using yge True by simp
        also have "\<dots> \<le> \<bar>d - y\<bar>"
          using dlt by linarith
        finally show ?thesis .
      next
        case False
        with y have neg: "y < 0" by simp
        have "\<bar>round_binary64 y - y\<bar> \<le> \<bar>- (2 powi binade y) - y\<bar>"
          using round_binary64_multiple [OF y, of "- (2 ^ nat (binade y - ulp_exp y))"] p by simp
        also have "\<dots> = - y - 2 powi binade y"
          using yge neg by simp
        also have "\<dots> \<le> \<bar>d - y\<bar>"
          using dlt by linarith
        finally show ?thesis .
      qed
    qed
  qed
qed

lemma round_binary64_id:
  assumes "is_binary64 x"
  shows "round_binary64 x = x"
proof (cases "x = 0")
  case True
  then show ?thesis by (simp add: round_binary64_def)
next
  case False
  with assms have "is_integer (x / 2 powi ulp_exp x)"
    by (simp add: is_binary64_def)
  then obtain j where j: "x / 2 powi ulp_exp x = of_int j"
    by (rule is_integerE)
  then have "x = of_int j * 2 powi ulp_exp x"
    by (simp add: field_simps)
  then show ?thesis
    using False by (simp add: round_binary64_def j round_even_of_int)
qed

subsection \<open>The rounded value is a binary64 value\<close>

lemma round_even_abs_le:
  assumes "\<bar>z\<bar> \<le> of_int n"
  shows "\<bar>round_even z\<bar> \<le> n"
proof -
  have "of_int (- n) \<le> z"
    using assms by simp
  then have l: "- n \<le> round_even z"
    by (rule round_even_mono_int)
  have "of_int (- n) \<le> - z"
    using assms by simp
  then have "- n \<le> round_even (- z)"
    by (rule round_even_mono_int)
  then have "round_even z \<le> n"
    by (simp add: round_even_minus)
  with l show ?thesis
    by simp
qed

lemma below_next_binade:
  assumes "y \<noteq> 0"
  shows "\<bar>y\<bar> < 2 powi (ulp_exp y + 53)"
proof -
  have "binade y + 1 \<le> ulp_exp y + 53"
    by (simp add: ulp_exp_def)
  then have "(2::rat) powi (binade y + 1) \<le> 2 powi (ulp_exp y + 53)"
    by (simp only: powi_le_iff)
  with binade_bounds [OF assms] show ?thesis
    by linarith
qed

lemma multiple_is_integer:
  assumes "x = of_int j * 2 powi b"
  shows "is_integer (x / 2 powi b)"
proof -
  have "x / 2 powi b = of_int j"
    by (subst assms) simp
  then show ?thesis
    by (simp only: is_integer_of_int)
qed

lemma round_binary64_is_binary64:
  assumes "\<bar>round_binary64 y\<bar> < 2 ^ 1024"
  shows "is_binary64 (round_binary64 y)"
proof (cases "round_binary64 y = 0")
  case True
  then show ?thesis by (simp add: is_binary64_def)
next
  case r0: False
  then have y: "y \<noteq> 0"
    by (auto simp: round_binary64_def)
  let ?a = "ulp_exp y"
  let ?u = "(2::rat) powi ?a"
  let ?k = "round_even (y / ?u)"
  let ?r = "round_binary64 y"
  have u: "0 < ?u"
    by simp
  have r: "?r = of_int ?k * ?u"
    using y by (simp add: round_binary64_def)
  have s: "(2::rat) powi (?a + 53) = of_int (2 ^ 53) * ?u"
    using powi_split [of ?a "?a + 53"] by simp
  have "\<bar>y / ?u\<bar> = \<bar>y\<bar> / ?u"
    using u by (simp add: abs_divide)
  also have "\<dots> \<le> of_int (2 ^ 53) * ?u / ?u"
    using below_next_binade [OF y] u unfolding s by (intro divide_right_mono) simp_all
  finally have "\<bar>y / ?u\<bar> \<le> of_int (2 ^ 53)"
    by simp
  then have k: "\<bar>?k\<bar> \<le> 2 ^ 53"
    by (rule round_even_abs_le)
  have ra: "\<bar>?r\<bar> = of_int \<bar>?k\<bar> * ?u"
    using u by (simp add: r abs_mult)
  have a_low: "- 1074 \<le> ?a"
    by (simp add: ulp_exp_def)
  show ?thesis
  proof (cases "\<bar>?k\<bar> = 2 ^ 53")
    case True
    have e: "\<bar>?r\<bar> = 2 powi (?a + 53)"
      unfolding ra True s by simp
    then have "2 powi (?a + 53) \<le> \<bar>?r\<bar>" and "\<bar>?r\<bar> < 2 powi (?a + 53 + 1)"
      by (simp_all add: powi_less_iff)
    then have b: "binade ?r = ?a + 53"
      by (rule binade_unique)
    have ue: "ulp_exp ?r = ?a + 1"
      using a_low by (simp add: ulp_exp_def b)
    have "even \<bar>?k\<bar>"
      unfolding True by simp
    then have "even ?k"
      by simp
    then have ev: "?k = 2 * (?k div 2)"
      by simp
    have p: "(2::rat) powi (?a + 1) = 2 * ?u"
      using powi_split [of ?a "?a + 1"] by simp
    have "?r = of_int (2 * (?k div 2)) * ?u"
      unfolding r by (simp only: ev [symmetric])
    also have "\<dots> = of_int (?k div 2) * 2 powi (?a + 1)"
      unfolding p by simp
    finally have f: "?r = of_int (?k div 2) * 2 powi (?a + 1)" .
    have "?r = of_int (?k div 2) * 2 powi ulp_exp ?r"
      unfolding ue by (rule f)
    then have "is_integer (?r / 2 powi ulp_exp ?r)"
      by (rule multiple_is_integer)
    then show ?thesis
      using assms by (simp only: is_binary64_def) simp
  next
    case False
    with k have "\<bar>?k\<bar> < 2 ^ 53"
      by simp
    then have "(of_int \<bar>?k\<bar> :: rat) < of_int (2 ^ 53)"
      by (simp only: of_int_less_iff)
    then have "\<bar>?r\<bar> < of_int (2 ^ 53) * ?u"
      unfolding ra using u by (simp only: mult_strict_right_mono)
    then have lt: "\<bar>?r\<bar> < 2 powi (?a + 53)"
      by (simp only: s)
    have "2 powi binade ?r \<le> \<bar>?r\<bar>"
      using binade_bounds [OF r0] by simp
    with lt have "(2::rat) powi binade ?r < 2 powi (?a + 53)"
      by linarith
    then have "binade ?r < ?a + 53"
      by (simp only: powi_less_iff)
    then have le: "ulp_exp ?r \<le> ?a"
      using a_low by (simp add: ulp_exp_def)
    have "?r = of_int ?k * (of_int (2 ^ nat (?a - ulp_exp ?r)) * 2 powi ulp_exp ?r)"
      by (simp only: powi_split [OF le, symmetric] r [symmetric])
    also have "\<dots> = of_int (?k * 2 ^ nat (?a - ulp_exp ?r)) * 2 powi ulp_exp ?r"
      by simp
    finally have "is_integer (?r / 2 powi ulp_exp ?r)"
      by (rule multiple_is_integer)
    then show ?thesis
      using assms by (simp only: is_binary64_def) simp
  qed
qed

subsection \<open>\<^verbatim>\<open>std::to_string(double)\<close> and \<^verbatim>\<open>std::stod\<close>\<close>

lemma dec_value_append: "dec_value (xs @ ys) = dec_value xs * 10 ^ length ys + dec_value ys"
proof (induction ys rule: rev_induct)
  case Nil
  then show ?case by (simp add: dec_value_def)
next
  case (snoc y ys)
  have "dec_value (xs @ ys @ [y]) = 10 * dec_value (xs @ ys) + digit_val y"
    using dec_value_snoc [of "xs @ ys" y] by simp
  then show ?case
    by (simp add: snoc dec_value_snoc algebra_simps)
qed

lemma pad_digits_digits: "list_all isdigit (pad_digits k m)"
  by (induction k arbitrary: m) (simp_all add: isdigit_digit_char)

lemma length_pad_digits: "length (pad_digits k m) = k"
  by (induction k arbitrary: m) simp_all

lemma dec_value_pad_digits: "dec_value (pad_digits k m) = m mod 10 ^ k"
proof (induction k arbitrary: m)
  case 0
  then show ?case by (simp add: dec_value_def)
next
  case (Suc k)
  have "m mod (10 * 10 ^ k) = 10 * (m div 10 mod 10 ^ k) + m mod 10"
    by (simp add: mod_mult2_eq)
  then show ?case
    by (simp add: dec_value_snoc Suc digit_val_digit_char)
qed

lemma frac6_digits: "list_all isdigit (frac6 m)"
  by (simp add: frac6_def pad_digits_digits)

lemma length_frac6: "length (frac6 m) = 6"
  by (simp add: frac6_def length_pad_digits)

lemma dec_value_frac6: "m < 10 ^ 6 \<Longrightarrow> dec_value (frac6 m) = m"
  by (simp add: frac6_def dec_value_pad_digits)

lemma isdigit_tolower: "isdigit c \<Longrightarrow> tolower c = c"
  by (auto simp: isdigit_def tolower_def Let_def)

lemma isdigit_not_letters:
  "isdigit c \<Longrightarrow> c \<noteq> CHR ''i'' \<and> c \<noteq> CHR ''n'' \<and> c \<noteq> CHR ''x'' \<and> c \<noteq> CHR ''.''"
  unfolding isdigit_def Let_def char_eq_nat [of c] by auto

lemma point_not_digit: "\<not> isdigit (CHR ''.'')"
  by (simp add: isdigit_def)

lemma tolower_point: "tolower (CHR ''.'') = CHR ''.''"
  by (simp add: tolower_def)

lemma no_special_prefix:
  assumes "list_all isdigit ds" and "ds \<noteq> []"
  shows "\<not> lower_prefix ''inf'' (ds @ CHR ''.'' # f)"
    and "\<not> lower_prefix ''nan'' (ds @ CHR ''.'' # f)"
    and "\<not> lower_prefix ''0x'' (ds @ CHR ''.'' # f)"
proof -
  from assms obtain d r where ds: "ds = d # r" and d: "isdigit d" and r: "list_all isdigit r"
    by (cases ds) auto
  show "\<not> lower_prefix ''inf'' (ds @ CHR ''.'' # f)"
    using isdigit_not_letters [OF d] by (simp add: lower_prefix_def ds isdigit_tolower [OF d])
  show "\<not> lower_prefix ''nan'' (ds @ CHR ''.'' # f)"
    using isdigit_not_letters [OF d] by (simp add: lower_prefix_def ds isdigit_tolower [OF d])
  show "\<not> lower_prefix ''0x'' (ds @ CHR ''.'' # f)"
  proof (cases r)
    case Nil
    then show ?thesis
      by (simp add: lower_prefix_def ds tolower_point)
  next
    case (Cons e r')
    with r have "isdigit e" by simp
    from isdigit_not_letters [OF this] isdigit_tolower [OF this] show ?thesis
      by (simp add: lower_prefix_def ds Cons)
  qed
qed

lemma strtod_decimal_fixed:
  assumes "list_all isdigit ds" and "ds \<noteq> []" and "list_all isdigit f"
  shows "strtod_decimal (ds @ CHR ''.'' # f) =
           Some (of_nat (dec_value (ds @ f)) * 10 powi (- int (length f)))"
proof -
  have np: "CHR ''.'' # f = [] \<or> \<not> isdigit (hd (CHR ''.'' # f))"
    by (simp add: point_not_digit)
  have ip: "takeWhile isdigit (ds @ CHR ''.'' # f) = ds"
    using assms(1) np by (rule takeWhile_digits)
  have r1: "dropWhile isdigit (ds @ CHR ''.'' # f) = CHR ''.'' # f"
    using assms(1) by (induction ds) (auto simp: point_not_digit)
  have fp: "takeWhile isdigit f = f" and r2: "dropWhile isdigit f = []"
    using assms(3) by (simp_all add: list_all_iff)
  show ?thesis
    using assms(2) by (simp add: strtod_decimal_def ip r1 fp r2 Let_def exponent_part_def)
qed

lemma six_decimals_minus: "six_decimals (- x) = - six_decimals x"
  by (simp add: six_decimals_def round_even_minus)

lemma six_decimals_error: "\<bar>six_decimals x - x\<bar> \<le> 1 / (2 * 10 ^ 6)"
proof -
  have e: "six_decimals x - x = (of_int (round_even (x * 10 ^ 6)) - x * 10 ^ 6) / 10 ^ 6"
    by (simp add: six_decimals_def field_simps)
  have "\<bar>six_decimals x - x\<bar> = \<bar>of_int (round_even (x * 10 ^ 6)) - x * 10 ^ 6\<bar> / 10 ^ 6"
    unfolding e abs_divide by simp
  also have "\<dots> \<le> (1 / 2) / 10 ^ 6"
    using round_even_half [of "x * 10 ^ 6"] by (intro divide_right_mono) simp_all
  finally show ?thesis by simp
qed

lemma six_decimals_of_int: "six_decimals (of_int k) = of_int k"
proof -
  have "(of_int k :: rat) * 10 ^ 6 = of_int (k * 10 ^ 6)"
    by simp
  then have "round_even (of_int k * 10 ^ 6) = k * 10 ^ 6"
    by (simp only: round_even_of_int)
  then show ?thesis
    by (simp add: six_decimals_def)
qed

lemma six_decimals_not_tiny:
  assumes "six_decimals x \<noteq> 0"
  shows "\<not> \<bar>six_decimals x\<bar> < 2 powi (- 1022)"
proof -
  let ?r = "round_even (x * 10 ^ 6)"
  from assms have "?r \<noteq> 0"
    by (auto simp: six_decimals_def)
  then have "1 \<le> \<bar>?r\<bar>"
    by simp
  then have "(1::rat) \<le> \<bar>of_int ?r\<bar>"
    by (metis of_int_abs of_int_1_le_iff)
  then have "1 / 10 ^ 6 \<le> \<bar>six_decimals x\<bar>"
    by (simp add: six_decimals_def abs_divide divide_right_mono)
  moreover have "(2::rat) powi (- 1022) \<le> 1 / 10 ^ 6"
    by (simp add: power_int_minus_divide)
  ultimately show ?thesis
    by linarith
qed

lemma stod_fixed:
  "stod tiny ((if neg then ''-'' else []) @ dec_digits a @ ''.'' @ frac6 b) =
     strtod_result tiny (let q = of_nat (dec_value (dec_digits a @ frac6 b)) * 10 powi (- 6)
                         in if neg then - q else q)"
proof -
  let ?ds = "dec_digits a"
  let ?t = "?ds @ CHR ''.'' # frac6 b"
  note dd = dec_digits_digits [of a] and dn = dec_digits_nonempty [of a]
  have hd: "isdigit (hd ?t)"
    using hd_dec_digits [of a] dn by simp
  have tne: "?t \<noteq> []"
    by simp
  have d: "dropWhile isspace ?t = ?t"
    using hd isdigit_not_space [of "hd ?t"] tne by (cases ?t) auto
  have sg: "hd ?t \<noteq> CHR ''-''" "hd ?t \<noteq> CHR ''+''"
    using hd isdigit_not_sign [of "hd ?t"] by simp_all
  have dec: "strtod_decimal ?t = Some (of_nat (dec_value (?ds @ frac6 b)) * 10 powi (- 6))"
    using strtod_decimal_fixed [OF dd dn frac6_digits, of b] by (simp add: length_frac6)
  note np = no_special_prefix [OF dd dn, of "frac6 b"]
  show ?thesis
  proof (cases neg)
    case True
    have s: "(if neg then ''-'' else []) @ ?ds @ ''.'' @ frac6 b = CHR ''-'' # ?t"
      using True by simp
    have d': "dropWhile isspace (CHR ''-'' # ?t) = CHR ''-'' # ?t"
      by (simp add: isspace_def)
    show ?thesis
      unfolding s stod_def d' Let_def using np True by (simp add: dec)
  next
    case False
    have s: "(if neg then ''-'' else []) @ ?ds @ ''.'' @ frac6 b = ?t"
      using False by simp
    show ?thesis
      unfolding s stod_def d Let_def using np False sg tne by (simp add: dec)
  qed
qed

lemma fixed_value:
  "of_nat (dec_value (dec_digits (n div 10 ^ 6) @ frac6 (n mod 10 ^ 6))) * 10 powi (- 6) =
   (of_nat n :: rat) / 10 ^ 6"
proof -
  have "dec_value (dec_digits (n div 10 ^ 6) @ frac6 (n mod 10 ^ 6)) = n"
    by (simp add: dec_value_append length_frac6 dec_value_dec_digits dec_value_frac6)
  then show ?thesis
    by (simp add: power_int_minus_divide)
qed

lemma stod_to_string_finite:
  "stod tiny (to_string_double (Finite x)) = strtod_result tiny (six_decimals x)"
proof -
  let ?n = "nat (round_even (\<bar>x\<bar> * 10 ^ 6))"
  have nn: "0 \<le> round_even (\<bar>x\<bar> * 10 ^ 6)"
    by (rule round_even_nonneg) simp
  then have n: "(of_nat ?n :: rat) = of_int (round_even (\<bar>x\<bar> * 10 ^ 6))"
    by simp
  have a: "(of_nat ?n :: rat) / 10 ^ 6 = six_decimals \<bar>x\<bar>"
    by (simp only: n six_decimals_def)
  have "stod tiny (to_string_double (Finite x)) =
          strtod_result tiny (if x < 0 then - six_decimals \<bar>x\<bar> else six_decimals \<bar>x\<bar>)"
    using stod_fixed [of tiny "x < 0" "?n div 10 ^ 6" "?n mod 10 ^ 6"]
    by (simp only: to_string_double_def double.case Let_def fixed_value a)
  also have "(if x < 0 then - six_decimals \<bar>x\<bar> else six_decimals \<bar>x\<bar>) = six_decimals x"
    using six_decimals_minus [of x] by (cases "x < 0") simp_all
  finally show ?thesis .
qed

lemma binary64_large_integer:
  assumes "is_binary64 x" and "x \<noteq> 0" and "52 \<le> binade x"
  obtains k where "x = of_int k"
proof -
  have "0 \<le> ulp_exp x"
    using assms(3) by (simp add: ulp_exp_def)
  from binary64_multiple [OF assms(1,2) this] obtain j where "x = of_int j * 2 powi 0" .
  then have "x = of_int j" by simp
  then show ?thesis by (rule that)
qed

lemma round_six_decimals_bound:
  assumes "is_binary64 x"
  shows "\<bar>round_binary64 (six_decimals x) - x\<bar> \<le> 1 / 10 ^ 6"
proof -
  let ?y = "six_decimals x"
  have "\<bar>round_binary64 ?y - x\<bar> \<le> \<bar>round_binary64 ?y - ?y\<bar> + \<bar>?y - x\<bar>"
    by simp
  also have "\<dots> \<le> \<bar>x - ?y\<bar> + \<bar>?y - x\<bar>"
    using round_binary64_nearest [OF assms, of ?y] by simp
  also have "\<dots> \<le> 1 / (2 * 10 ^ 6) + 1 / (2 * 10 ^ 6)"
    using six_decimals_error [of x] by (simp add: abs_minus_commute)
  finally show ?thesis by simp
qed

lemma round_six_decimals_no_overflow:
  assumes "is_binary64 x"
  shows "\<bar>round_binary64 (six_decimals x)\<bar> < 2 ^ 1024"
proof (cases "x \<noteq> 0 \<and> 52 \<le> binade x")
  case True
  with assms obtain k where "x = of_int k"
    using binary64_large_integer by blast
  then have "six_decimals x = x"
    by (simp only: six_decimals_of_int)
  then show ?thesis
    using assms by (simp add: round_binary64_id is_binary64_def)
next
  case False
  have "\<bar>x\<bar> < 2 powi 52"
  proof (cases "x = 0")
    case True
    then show ?thesis by simp
  next
    case x: False
    with False have "binade x + 1 \<le> 52" by simp
    then have "(2::rat) powi (binade x + 1) \<le> 2 powi 52"
      by (simp only: powi_le_iff)
    with binade_bounds [OF x] show ?thesis by linarith
  qed
  then have "\<bar>x\<bar> < 2 ^ 52"
    by simp
  moreover have "\<bar>round_binary64 (six_decimals x)\<bar> \<le> \<bar>x\<bar> + 1 / 10 ^ 6"
    using round_six_decimals_bound [OF assms] by linarith
  moreover have "(2::rat) ^ 52 + 1 / 10 ^ 6 < 2 ^ 1024"
    by simp
  ultimately show ?thesis
    by linarith
qed

lemma stod_to_string_double:
  assumes "is_double v"
  shows "stod tiny (to_string_double v) =
           Some (case v of Finite x \<Rightarrow> Finite (round_binary64 (six_decimals x)) | _ \<Rightarrow> v)"
proof (cases v)
  case (Finite x)
  with assms have b: "is_binary64 x" by simp
  have nt: "\<not> (six_decimals x \<noteq> 0 \<and> \<bar>six_decimals x\<bar> < 2 powi (- 1022))"
    using six_decimals_not_tiny [of x] by blast
  have no: "\<not> 2 ^ 1024 \<le> \<bar>round_binary64 (six_decimals x)\<bar>"
    using round_six_decimals_no_overflow [OF b] by (simp only: not_le)
  have "strtod_result tiny (six_decimals x) = Some (Finite (round_binary64 (six_decimals x)))"
    unfolding strtod_result_def Let_def using nt no by (simp only: if_False)
  then show ?thesis
    by (simp add: Finite stod_to_string_finite)
next
  case PInf
  then show ?thesis
    by (simp add: to_string_double_def stod_def isspace_def lower_prefix_def tolower_def)
next
  case NInf
  then show ?thesis
    by (simp add: to_string_double_def stod_def isspace_def lower_prefix_def tolower_def)
next
  case NaN
  then show ?thesis
    by (simp add: to_string_double_def stod_def isspace_def lower_prefix_def tolower_def)
qed

lemma dropWhile_digits:
  "list_all isdigit ds \<Longrightarrow> t = [] \<or> \<not> isdigit (hd t) \<Longrightarrow> dropWhile isdigit (ds @ t) = t"
  by (induction ds) (auto simp: dropWhile_eq_self_iff)

lemma exponent_part_none: "t = [] \<or> tolower (hd t) \<noteq> c \<Longrightarrow> exponent_part c t = 0"
  by (auto simp: exponent_part_def)

lemma strtod_decimal_plain:
  assumes "list_all isdigit ip" and "list_all isdigit fp" and "ip \<noteq> [] \<or> fp \<noteq> []"
    and "pt = ''.'' \<or> (pt = [] \<and> fp = [] \<and> (t = [] \<or> hd t \<noteq> CHR ''.''))"
    and "t = [] \<or> (\<not> isdigit (hd t) \<and> tolower (hd t) \<noteq> CHR ''e'')"
  shows "strtod_decimal (ip @ pt @ fp @ t) = Some (of_nat (dec_value (ip @ fp)) / 10 ^ length fp)"
proof -
  from assms(5) have nd: "t = [] \<or> \<not> isdigit (hd t)" and ne: "t = [] \<or> tolower (hd t) \<noteq> CHR ''e''"
    by auto
  note ex = exponent_part_none [OF ne]
  from assms(4) show ?thesis
  proof
    assume pt: "pt = ''.''"
    have np: "CHR ''.'' # fp @ t = [] \<or> \<not> isdigit (hd (CHR ''.'' # fp @ t))"
      by (simp add: point_not_digit)
    have a: "takeWhile isdigit (ip @ CHR ''.'' # fp @ t) = ip"
      using assms(1) np by (rule takeWhile_digits)
    have b: "dropWhile isdigit (ip @ CHR ''.'' # fp @ t) = CHR ''.'' # fp @ t"
      using assms(1) np by (rule dropWhile_digits)
    have c: "takeWhile isdigit (fp @ t) = fp"
      using assms(2) nd by (rule takeWhile_digits)
    have d: "dropWhile isdigit (fp @ t) = t"
      using assms(2) nd by (rule dropWhile_digits)
    show ?thesis
      using assms(3)
      by (simp add: pt strtod_decimal_def a b c d ex Let_def power_int_minus_divide)
  next
    assume "pt = [] \<and> fp = [] \<and> (t = [] \<or> hd t \<noteq> CHR ''.'')"
    then have pt: "pt = []" and fp: "fp = []" and np: "t = [] \<or> hd t \<noteq> CHR ''.''"
      by auto
    have a: "takeWhile isdigit (ip @ t) = ip"
      using assms(1) nd by (rule takeWhile_digits)
    have b: "dropWhile isdigit (ip @ t) = t"
      using assms(1) nd by (rule dropWhile_digits)
    show ?thesis
      using assms(3) np by (auto simp: pt fp strtod_decimal_def a b ex Let_def)
  qed
qed

lemma tolower_not_digit: "\<not> isdigit c \<Longrightarrow> \<not> isdigit (tolower c)"
proof (cases "65 \<le> (of_char c :: nat) \<and> (of_char c :: nat) \<le> 90")
  case True
  then have "(of_char (tolower c) :: nat) = of_char c + 32"
    by (simp add: tolower_def Let_def)
  with True show ?thesis
    by (simp add: isdigit_def Let_def)
next
  case False
  then have "tolower c = c"
    by (auto simp: tolower_def Let_def)
  then show "\<not> isdigit c \<Longrightarrow> ?thesis"
    by simp
qed

lemma number_start_plain:
  assumes "t \<noteq> []" and "isdigit (hd t) \<or> hd t = CHR ''.''"
  shows "dropWhile isspace t = t" and "hd t \<noteq> CHR ''-''" and "hd t \<noteq> CHR ''+''"
    and "\<not> lower_prefix ''inf'' t" and "\<not> lower_prefix ''nan'' t"
proof -
  from assms obtain c r where t: "t = c # r" and c: "isdigit c \<or> c = CHR ''.''"
    by (cases t) auto
  have "\<not> isspace c \<and> c \<noteq> CHR ''-'' \<and> c \<noteq> CHR ''+'' \<and> tolower c = c \<and>
        c \<noteq> CHR ''i'' \<and> c \<noteq> CHR ''n''"
  proof (cases "isdigit c")
    case True
    from isdigit_not_space [OF this] isdigit_not_sign [OF this] isdigit_tolower [OF this]
      isdigit_not_letters [OF this]
    show ?thesis by simp
  next
    case False
    with c have "c = CHR ''.''" by simp
    then show ?thesis
      by (simp add: isspace_def tolower_point)
  qed
  then have ns: "\<not> isspace c" and sg: "c \<noteq> CHR ''-''" "c \<noteq> CHR ''+''"
    and l: "tolower c = c" and nl: "c \<noteq> CHR ''i''" "c \<noteq> CHR ''n''"
    by simp_all
  show "dropWhile isspace t = t" using ns by (simp add: t)
  show "hd t \<noteq> CHR ''-''" "hd t \<noteq> CHR ''+''" using sg by (simp_all add: t)
  show "\<not> lower_prefix ''inf'' t" "\<not> lower_prefix ''nan'' t"
    using nl by (simp_all add: lower_prefix_def t l)
qed

lemma stod_signed_decimal:
  assumes "sg = [] \<or> sg = ''+'' \<or> sg = ''-''"
    and "t \<noteq> []" and "isdigit (hd t) \<or> hd t = CHR ''.''"
    and "\<not> lower_prefix ''0x'' t" and "strtod_decimal t = Some q"
  shows "stod tiny (sg @ t) = strtod_result tiny (if sg = ''-'' then - q else q)"
proof -
  note ns = number_start_plain [OF assms(2,3)]
  from assms(1) consider "sg = []" | "sg = ''+''" | "sg = ''-''" by blast
  then show ?thesis
  proof cases
    case 1
    show ?thesis
      unfolding 1 append_Nil stod_def ns(1) Let_def
      using ns(2-5) assms(2,4,5) by simp
  next
    case 2
    have d: "dropWhile isspace (CHR ''+'' # t) = CHR ''+'' # t"
      by (simp add: isspace_def)
    have s: "''+'' @ t = CHR ''+'' # t" by simp
    show ?thesis
      unfolding 2 s stod_def d Let_def using ns(4,5) assms(4,5) by simp
  next
    case 3
    have d: "dropWhile isspace (CHR ''-'' # t) = CHR ''-'' # t"
      by (simp add: isspace_def)
    have s: "''-'' @ t = CHR ''-'' # t" by simp
    show ?thesis
      unfolding 3 s stod_def d Let_def using ns(4,5) assms(4,5) by simp
  qed
qed

lemma no_hex_prefix:
  assumes "list_all isdigit ip" and "list_all isdigit fp" and "ip \<noteq> [] \<or> fp \<noteq> []"
    and "pt = ''.'' \<or> (pt = [] \<and> fp = [] \<and>
           (t = [] \<or> \<not> (ip = ''0'' \<and> tolower (hd t) = CHR ''x'')))"
  shows "\<not> lower_prefix ''0x'' (ip @ pt @ fp @ t)"
proof (cases ip)
  case Nil
  with assms(2,3,4) show ?thesis
    by (cases t; cases fp) (auto simp: lower_prefix_def tolower_point)
next
  case (Cons d r)
  show ?thesis
  proof (cases r)
    case Nil
    have x: "tolower c \<noteq> CHR ''x''" if "isdigit c" for c
      using isdigit_tolower [OF that] isdigit_not_letters [OF that] by simp
    from assms(2) have fx: "fp \<noteq> [] \<Longrightarrow> tolower (hd fp) \<noteq> CHR ''x''"
      using x [of "hd fp"] by (cases fp) auto
    from assms(4) show ?thesis
    proof
      assume "pt = ''.''"
      then show ?thesis
        by (simp add: lower_prefix_def Cons Nil tolower_point)
    next
      assume a: "pt = [] \<and> fp = [] \<and> (t = [] \<or> \<not> (ip = ''0'' \<and> tolower (hd t) = CHR ''x''))"
      from assms(1) have dl: "tolower d = d"
        by (simp add: Cons isdigit_tolower)
      from a show ?thesis
        by (cases t) (auto simp: lower_prefix_def Cons Nil dl)
    qed
  next
    case (Cons e r')
    with assms(1) \<open>ip = d # r\<close> have "isdigit e" by simp
    from isdigit_not_letters [OF this] isdigit_tolower [OF this] show ?thesis
      by (simp add: lower_prefix_def \<open>ip = d # r\<close> Cons)
  qed
qed

lemma stod_plain:
  assumes "sg = [] \<or> sg = ''+'' \<or> sg = ''-''"
    and "list_all isdigit ip" and "list_all isdigit fp" and "ip \<noteq> [] \<or> fp \<noteq> []"
    and "pt = ''.'' \<or> (pt = [] \<and> fp = [] \<and>
           (t = [] \<or> (hd t \<noteq> CHR ''.'' \<and> \<not> (ip = ''0'' \<and> tolower (hd t) = CHR ''x''))))"
    and "t = [] \<or> (\<not> isdigit (hd t) \<and> tolower (hd t) \<noteq> CHR ''e'')"
  shows "stod tiny (sg @ ip @ pt @ fp @ t) =
           strtod_result tiny (apply_sign_rat sg (of_nat (dec_value (ip @ fp)) / 10 ^ length fp))"
proof -
  let ?u = "ip @ pt @ fp @ t"
  from assms(5) have p1: "pt = ''.'' \<or> (pt = [] \<and> fp = [] \<and> (t = [] \<or> hd t \<noteq> CHR ''.''))"
    and p2: "pt = ''.'' \<or> (pt = [] \<and> fp = [] \<and>
           (t = [] \<or> \<not> (ip = ''0'' \<and> tolower (hd t) = CHR ''x'')))"
    by auto
  from assms(4,5) have ne: "?u \<noteq> []"
    by auto
  have hd: "isdigit (hd ?u) \<or> hd ?u = CHR ''.''"
  proof (cases ip)
    case Nil
    with assms(4,5) show ?thesis by auto
  next
    case (Cons d r)
    with assms(2) show ?thesis by simp
  qed
  note dec = strtod_decimal_plain [OF assms(2,3,4) p1 assms(6)]
  note nh = no_hex_prefix [OF assms(2,3,4) p2]
  show ?thesis
    using stod_signed_decimal [OF assms(1) ne hd nh dec, of tiny]
    by (simp add: apply_sign_rat_def)
qed

lemma stod_no_number:
  assumes "sg = [] \<or> sg = ''+'' \<or> sg = ''-''"
    and "t = [] \<or> (\<not> isdigit (hd t) \<and> \<not> lower_prefix ''inf'' t \<and> \<not> lower_prefix ''nan'' t \<and>
                    \<not> (hd t = CHR ''.'' \<and> tl t \<noteq> [] \<and> isdigit (hd (tl t))))"
    and "sg = [] \<longrightarrow> t = [] \<or> \<not> (isspace (hd t) \<or> hd t = CHR ''+'' \<or> hd t = CHR ''-'')"
  shows "stod tiny (sg @ t) = None"
proof -
  have x: "\<not> lower_prefix ''0x'' t"
  proof (cases t)
    case Nil
    then show ?thesis by (simp add: lower_prefix_def)
  next
    case (Cons c r)
    with assms(2) have "\<not> isdigit c" by simp
    then have "tolower c \<noteq> CHR ''0''"
      using tolower_not_digit [of c] by (auto simp: isdigit_def)
    then show ?thesis
      by (simp add: lower_prefix_def Cons)
  qed
  have i: "\<not> lower_prefix ''inf'' t" and n: "\<not> lower_prefix ''nan'' t"
    using assms(2) by (auto simp: lower_prefix_def)
  have dec: "strtod_decimal t = None"
  proof (cases t)
    case Nil
    then show ?thesis by (simp add: strtod_decimal_def)
  next
    case (Cons c r)
    with assms(2) have c: "\<not> isdigit c" and r: "c = CHR ''.'' \<longrightarrow> r = [] \<or> \<not> isdigit (hd r)"
      by auto
    from r have "c = CHR ''.'' \<longrightarrow> takeWhile isdigit r = []"
      by (cases r) auto
    with c show ?thesis
      by (simp add: strtod_decimal_def Cons Let_def)
  qed
  from assms(1) consider "sg = []" | "sg = ''+''" | "sg = ''-''" by blast
  then show ?thesis
  proof cases
    case 1
    with assms(3) have d: "dropWhile isspace t = t"
      by (cases t) auto
    have t: "(if t \<noteq> [] \<and> (hd t = CHR ''-'' \<or> hd t = CHR ''+'') then tl t else t) = t"
      using 1 assms(3) by auto
    show ?thesis
      unfolding 1 append_Nil stod_def d Let_def t using i n x dec by simp
  next
    case 2
    have d: "dropWhile isspace (CHR ''+'' # t) = CHR ''+'' # t"
      by (simp add: isspace_def)
    have s: "''+'' @ t = CHR ''+'' # t" by simp
    show ?thesis
      unfolding 2 s stod_def d Let_def using i n x dec by simp
  next
    case 3
    have d: "dropWhile isspace (CHR ''-'' # t) = CHR ''-'' # t"
      by (simp add: isspace_def)
    have s: "''-'' @ t = CHR ''-'' # t" by simp
    show ?thesis
      unfolding 3 s stod_def d Let_def using i n x dec by simp
  qed
qed

subsection \<open>Evaluations used in the examples\<close>

lemma binade_5_2: "binade (5 / 2) = 1"
  by (rule binade_unique) simp_all

lemma is_binary64_5_2: "is_binary64 (5 / 2)"
  by (simp add: is_binary64_def ulp_exp_def binade_5_2 is_integer_def power_int_minus_divide)

lemma six_decimals_5_2: "six_decimals (5 / 2) = 5 / 2"
proof -
  have "(5 / 2 :: rat) * 10 ^ 6 = of_int 2500000"
    by simp
  then have "round_even (5 / 2 * 10 ^ 6) = 2500000"
    by (simp only: round_even_of_int)
  then show ?thesis
    by (simp add: six_decimals_def)
qed

lemma spec_example_writes:
  "writes (lines_of spec_example_text) =
     [(''Render'', ''VSync'', ''0''), (''Render'', ''HotReloadIntervalMs'', ''250''),
      (''Triangle'', ''Scale'', ''2.5'')]"
  by code_simp

lemma GetString_Parse:
  "GetString (snd (Parse text s)) c k = last_write (writes (lines_of text)) c k"
  using parse_lines_invariant [of "lines_of text"]
  by (simp add: GetString_lookup Parse_def parse_loop_lines)

lemma stoi_250: "stoi ''250'' = Some 250"
  by (simp add: stoi_def isspace_def isdigit_def dec_value_def digit_val_def)

lemma round_binary64_5_2: "round_binary64 (5 / 2) = 5 / 2"
  by (simp add: round_binary64_id is_binary64_5_2)

lemma strtod_result_5_2: "strtod_result tiny (5 / 2) = Some (Finite (5 / 2))"
  by (simp add: strtod_result_def round_binary64_5_2 power_int_minus_divide)

lemma stod_2_5: "stod tiny ''2.5'' = Some (Finite (5 / 2))"
  by (simp add: stod_def isspace_def lower_prefix_def tolower_def strtod_decimal_def isdigit_def
      exponent_part_def dec_value_def digit_val_def strtod_result_5_2 power_int_minus_divide)

lemma stoi_250ms: "stoi ''250ms'' = Some 250"
  by (simp add: stoi_def isspace_def isdigit_def dec_value_def digit_val_def)

lemma stoi_abc: "stoi ''abc'' = None"
  by (simp add: stoi_def isspace_def isdigit_def)

lemma stod_abc: "stod tiny ''abc'' = None"
  by (simp add: stod_def isspace_def lower_prefix_def tolower_def strtod_decimal_def isdigit_def)

lemma stod_2_5abc: "stod tiny ''2.5abc'' = Some (Finite (5 / 2))"
  by (simp add: stod_def isspace_def lower_prefix_def tolower_def strtod_decimal_def isdigit_def
      exponent_part_def dec_value_def digit_val_def strtod_result_5_2 power_int_minus_divide)

lemma GetString_store:
  "GetString (s\<lparr>m_data := store (m_data s) cat key v\<rparr>) cat key = Some v"
  by (simp add: GetString_def store_def)

lemma dec_value_250: "dec_value ''250'' = 250"
  by (simp add: dec_value_def digit_val_def)

lemma dec_value_4000000000: "dec_value ''4000000000'' = 4000000000"
  by (simp add: dec_value_def digit_val_def)

lemma dec_value_25: "dec_value ''25'' = 25"
  by (simp add: dec_value_def digit_val_def)

lemma abc_no_number:
  "\<not> isdigit (hd ''abc'') \<and> \<not> lower_prefix ''inf'' ''abc'' \<and> \<not> lower_prefix ''nan'' ''abc'' \<and>
   \<not> isspace (hd ''abc'') \<and> tolower (hd ''abc'') \<noteq> CHR ''e'' \<and> hd ''abc'' \<noteq> CHR ''.''"
  by code_simp

subsection \<open>The typed getters and setters\<close>

text \<open>
  Claim C1, amended. \<^verbatim>\<open>GetInt\<close> and \<^verbatim>\<open>GetDouble\<close> return the caller's default when the key is
  absent and when \<^verbatim>\<open>std::stoi\<close>, respectively \<^verbatim>\<open>std::stod\<close>, throws on the stored string. After
  optional whitespace and at most one sign:
  \<^item> a non-empty run of digits, followed by anything that is not a digit, makes \<^verbatim>\<open>std::stoi\<close>
    return the signed value of the digits when it is an \<^verbatim>\<open>int\<close>, and throw when it is not;
    \<^verbatim>\<open>GetInt\<close> returns that value, respectively the default. In particular the decimal text
    of an \<^verbatim>\<open>int\<close> followed by anything that does not start with a digit yields that \<^verbatim>\<open>int\<close>;
  \<^item> anything that does not start with a digit makes \<^verbatim>\<open>std::stoi\<close> throw, and \<^verbatim>\<open>GetInt\<close>
    return the default;
  \<^item> digits with a decimal point, or digits alone, followed by anything that is not a digit
    and not an exponent (and not the rest of a hexadecimal or point form), make \<^verbatim>\<open>std::stod\<close>
    return the binary64 value nearest to the signed decimal value, throw when that is
    out of range, and do what the library does below the normal range; \<^verbatim>\<open>GetDouble\<close> returns
    that value, respectively the default;
  \<^item> anything that starts neither with a digit, nor with a point and a digit, nor with
    \<^verbatim>\<open>inf\<close> or \<^verbatim>\<open>nan\<close> in any letter case makes \<^verbatim>\<open>std::stod\<close> throw, and \<^verbatim>\<open>GetDouble\<close> return
    the default.

  Trailing characters are ignored by both getters. For keys never set the getters return
  exactly the default.
\<close>

theorem getters_default:
  "(GetString s cat key = None \<longrightarrow>
      GetInt s cat key idef = idef \<and> GetDouble tiny s cat key ddef = ddef) \<and>
   (GetString s cat key = Some str \<and> stoi str = None \<longrightarrow> GetInt s cat key idef = idef) \<and>
   (GetString s cat key = Some str \<and> stod tiny str = None \<longrightarrow>
      GetDouble tiny s cat key ddef = ddef) \<and>
   (GetString s cat key = Some (to_string_int i @ rest) \<and> (rest = [] \<or> \<not> isdigit (hd rest)) \<longrightarrow>
      GetInt s cat key idef = i) \<and>
   (list_all isspace ws \<and> (sg = [] \<or> sg = ''+'' \<or> sg = ''-'') \<longrightarrow>
      (GetString s cat key = Some (ws @ sg @ ds @ rest) \<and>
       list_all isdigit ds \<and> ds \<noteq> [] \<and> (rest = [] \<or> \<not> isdigit (hd rest)) \<longrightarrow>
         stoi (ws @ sg @ ds @ rest) =
           (if in_int_range (apply_sign sg (dec_value ds))
            then Some (word_of_int (apply_sign sg (dec_value ds))) else None) \<and>
         GetInt s cat key idef =
           (if in_int_range (apply_sign sg (dec_value ds))
            then word_of_int (apply_sign sg (dec_value ds)) else idef)) \<and>
      (GetString s cat key = Some (ws @ sg @ rest) \<and>
       (rest = [] \<or> \<not> isdigit (hd rest)) \<and>
       (sg = [] \<longrightarrow> rest = [] \<or> \<not> (isspace (hd rest) \<or> hd rest = CHR ''+'' \<or> hd rest = CHR ''-'')) \<longrightarrow>
         stoi (ws @ sg @ rest) = None \<and> GetInt s cat key idef = idef) \<and>
      (GetString s cat key = Some (ws @ sg @ ip @ pt @ fp @ rest) \<and>
       list_all isdigit ip \<and> list_all isdigit fp \<and> (ip \<noteq> [] \<or> fp \<noteq> []) \<and>
       (pt = ''.'' \<or>
        (pt = [] \<and> fp = [] \<and>
         (rest = [] \<or>
          (hd rest \<noteq> CHR ''.'' \<and> \<not> (ip = ''0'' \<and> tolower (hd rest) = CHR ''x''))))) \<and>
       (rest = [] \<or> (\<not> isdigit (hd rest) \<and> tolower (hd rest) \<noteq> CHR ''e'')) \<and>
       x = apply_sign_rat sg (of_nat (dec_value (ip @ fp)) / 10 ^ length fp) \<longrightarrow>
         stod tiny (ws @ sg @ ip @ pt @ fp @ rest) =
           (if x \<noteq> 0 \<and> \<bar>x\<bar> < 2 powi (- 1022) then tiny x
            else if 2 ^ 1024 \<le> \<bar>round_binary64 x\<bar> then None
            else Some (Finite (round_binary64 x))) \<and>
         GetDouble tiny s cat key ddef =
           (if x \<noteq> 0 \<and> \<bar>x\<bar> < 2 powi (- 1022) then (case tiny x of Some v \<Rightarrow> v | None \<Rightarrow> ddef)
            else if 2 ^ 1024 \<le> \<bar>round_binary64 x\<bar> then ddef
            else Finite (round_binary64 x))) \<and>
      (GetString s cat key = Some (ws @ sg @ rest) \<and>
       (rest = [] \<or>
        (\<not> isdigit (hd rest) \<and> \<not> lower_prefix ''inf'' rest \<and> \<not> lower_prefix ''nan'' rest \<and>
         \<not> (hd rest = CHR ''.'' \<and> tl rest \<noteq> [] \<and> isdigit (hd (tl rest))))) \<and>
       (sg = [] \<longrightarrow> rest = [] \<or> \<not> (isspace (hd rest) \<or> hd rest = CHR ''+'' \<or> hd rest = CHR ''-'')) \<longrightarrow>
         stod tiny (ws @ sg @ rest) = None \<and> GetDouble tiny s cat key ddef = ddef)) \<and>
   GetInt Settings_init cat key idef = idef \<and>
   GetDouble tiny Settings_init cat key ddef = ddef"
proof -
  have a: "GetInt s cat key idef = i"
    if "GetString s cat key = Some (to_string_int i @ rest)" and "rest = [] \<or> \<not> isdigit (hd rest)"
    using that stoi_to_string_int [OF that(2), of i] by (simp add: GetInt_def)
  have b: "GetString Settings_init cat key = None"
    by (simp add: GetString_def Settings_init_def)
  have c: "stoi (ws @ sg @ ds @ rest) =
             (if in_int_range (apply_sign sg (dec_value ds))
              then Some (word_of_int (apply_sign sg (dec_value ds))) else None)"
    if "list_all isspace ws" and "sg = [] \<or> sg = ''+'' \<or> sg = ''-''"
      and "list_all isdigit ds" and "ds \<noteq> []" and "rest = [] \<or> \<not> isdigit (hd rest)"
    using stoi_spaces [OF that(1)] stoi_signed [OF that(2-5)] by simp
  have d: "stoi (ws @ sg @ rest) = None"
    if "list_all isspace ws" and "sg = [] \<or> sg = ''+'' \<or> sg = ''-''"
      and "rest = [] \<or> \<not> isdigit (hd rest)"
      and "sg = [] \<longrightarrow> rest = [] \<or> \<not> (isspace (hd rest) \<or> hd rest = CHR ''+'' \<or> hd rest = CHR ''-'')"
    using stoi_spaces [OF that(1)] stoi_no_digits [OF that(2-4)] by simp
  have e: "stod tiny (ws @ sg @ ip @ pt @ fp @ rest) =
             (if x \<noteq> 0 \<and> \<bar>x\<bar> < 2 powi (- 1022) then tiny x
              else if 2 ^ 1024 \<le> \<bar>round_binary64 x\<bar> then None
              else Some (Finite (round_binary64 x)))"
    if "list_all isspace ws" and "sg = [] \<or> sg = ''+'' \<or> sg = ''-''"
      and "list_all isdigit ip" and "list_all isdigit fp" and "ip \<noteq> [] \<or> fp \<noteq> []"
      and "pt = ''.'' \<or>
           (pt = [] \<and> fp = [] \<and>
            (rest = [] \<or>
             (hd rest \<noteq> CHR ''.'' \<and> \<not> (ip = ''0'' \<and> tolower (hd rest) = CHR ''x''))))"
      and "rest = [] \<or> (\<not> isdigit (hd rest) \<and> tolower (hd rest) \<noteq> CHR ''e'')"
      and "x = apply_sign_rat sg (of_nat (dec_value (ip @ fp)) / 10 ^ length fp)"
    using stod_spaces [OF that(1), of tiny] stod_plain [OF that(2-7), of tiny]
    unfolding that(8) strtod_result_def Let_def by simp
  have f: "stod tiny (ws @ sg @ rest) = None"
    if "list_all isspace ws" and "sg = [] \<or> sg = ''+'' \<or> sg = ''-''"
      and "rest = [] \<or>
        (\<not> isdigit (hd rest) \<and> \<not> lower_prefix ''inf'' rest \<and> \<not> lower_prefix ''nan'' rest \<and>
         \<not> (hd rest = CHR ''.'' \<and> tl rest \<noteq> [] \<and> isdigit (hd (tl rest))))"
      and "sg = [] \<longrightarrow> rest = [] \<or> \<not> (isspace (hd rest) \<or> hd rest = CHR ''+'' \<or> hd rest = CHR ''-'')"
    using stod_spaces [OF that(1), of tiny] stod_no_number [OF that(2-4), of tiny] by simp
  have 1: "GetString s cat key = None \<longrightarrow>
      GetInt s cat key idef = idef \<and> GetDouble tiny s cat key ddef = ddef"
    by (simp add: GetInt_def GetDouble_def)
  have 2: "GetString s cat key = Some str \<and> stoi str = None \<longrightarrow> GetInt s cat key idef = idef"
    by (simp add: GetInt_def)
  have 3: "GetString s cat key = Some str \<and> stod tiny str = None \<longrightarrow>
      GetDouble tiny s cat key ddef = ddef"
    by (simp add: GetDouble_def)
  have 4: "GetString s cat key = Some (to_string_int i @ rest) \<and> (rest = [] \<or> \<not> isdigit (hd rest)) \<longrightarrow>
      GetInt s cat key idef = i"
    using a by blast
  have 5: "GetInt Settings_init cat key idef = idef" "GetDouble tiny Settings_init cat key ddef = ddef"
    using b by (simp_all add: GetInt_def GetDouble_def)
  have gi: "GetInt s cat key idef = (case stoi u of Some v \<Rightarrow> v | None \<Rightarrow> idef)"
    if "GetString s cat key = Some u" for u
    using that by (simp add: GetInt_def)
  have gd: "GetDouble tiny s cat key ddef = (case stod tiny u of Some v \<Rightarrow> v | None \<Rightarrow> ddef)"
    if "GetString s cat key = Some u" for u
    using that by (simp add: GetDouble_def)
  have 6: "GetString s cat key = Some (ws @ sg @ ds @ rest) \<and>
       list_all isdigit ds \<and> ds \<noteq> [] \<and> (rest = [] \<or> \<not> isdigit (hd rest)) \<longrightarrow>
         stoi (ws @ sg @ ds @ rest) =
           (if in_int_range (apply_sign sg (dec_value ds))
            then Some (word_of_int (apply_sign sg (dec_value ds))) else None) \<and>
         GetInt s cat key idef =
           (if in_int_range (apply_sign sg (dec_value ds))
            then word_of_int (apply_sign sg (dec_value ds)) else idef)"
    if w: "list_all isspace ws" "sg = [] \<or> sg = ''+'' \<or> sg = ''-''"
  proof (intro impI, elim conjE)
    assume g: "GetString s cat key = Some (ws @ sg @ ds @ rest)"
      and h: "list_all isdigit ds" "ds \<noteq> []" "rest = [] \<or> \<not> isdigit (hd rest)"
    note c [OF w h]
    then show "stoi (ws @ sg @ ds @ rest) =
           (if in_int_range (apply_sign sg (dec_value ds))
            then Some (word_of_int (apply_sign sg (dec_value ds))) else None) \<and>
         GetInt s cat key idef =
           (if in_int_range (apply_sign sg (dec_value ds))
            then word_of_int (apply_sign sg (dec_value ds)) else idef)"
      by (simp add: gi [OF g])
  qed
  have 7: "GetString s cat key = Some (ws @ sg @ rest) \<and>
       (rest = [] \<or> \<not> isdigit (hd rest)) \<and>
       (sg = [] \<longrightarrow> rest = [] \<or> \<not> (isspace (hd rest) \<or> hd rest = CHR ''+'' \<or> hd rest = CHR ''-'')) \<longrightarrow>
         stoi (ws @ sg @ rest) = None \<and> GetInt s cat key idef = idef"
    if w: "list_all isspace ws" "sg = [] \<or> sg = ''+'' \<or> sg = ''-''"
  proof (intro impI, elim conjE)
    assume g: "GetString s cat key = Some (ws @ sg @ rest)"
      and h: "rest = [] \<or> \<not> isdigit (hd rest)"
        "sg = [] \<longrightarrow> rest = [] \<or> \<not> (isspace (hd rest) \<or> hd rest = CHR ''+'' \<or> hd rest = CHR ''-'')"
    note d [OF w h]
    then show "stoi (ws @ sg @ rest) = None \<and> GetInt s cat key idef = idef"
      by (simp add: gi [OF g])
  qed
  have 8: "GetString s cat key = Some (ws @ sg @ ip @ pt @ fp @ rest) \<and>
       list_all isdigit ip \<and> list_all isdigit fp \<and> (ip \<noteq> [] \<or> fp \<noteq> []) \<and>
       (pt = ''.'' \<or>
        (pt = [] \<and> fp = [] \<and>
         (rest = [] \<or>
          (hd rest \<noteq> CHR ''.'' \<and> \<not> (ip = ''0'' \<and> tolower (hd rest) = CHR ''x''))))) \<and>
       (rest = [] \<or> (\<not> isdigit (hd rest) \<and> tolower (hd rest) \<noteq> CHR ''e'')) \<and>
       x = apply_sign_rat sg (of_nat (dec_value (ip @ fp)) / 10 ^ length fp) \<longrightarrow>
         stod tiny (ws @ sg @ ip @ pt @ fp @ rest) =
           (if x \<noteq> 0 \<and> \<bar>x\<bar> < 2 powi (- 1022) then tiny x
            else if 2 ^ 1024 \<le> \<bar>round_binary64 x\<bar> then None
            else Some (Finite (round_binary64 x))) \<and>
         GetDouble tiny s cat key ddef =
           (if x \<noteq> 0 \<and> \<bar>x\<bar> < 2 powi (- 1022) then (case tiny x of Some v \<Rightarrow> v | None \<Rightarrow> ddef)
            else if 2 ^ 1024 \<le> \<bar>round_binary64 x\<bar> then ddef
            else Finite (round_binary64 x))"
    if w: "list_all isspace ws" "sg = [] \<or> sg = ''+'' \<or> sg = ''-''"
  proof (intro impI, elim conjE)
    assume g: "GetString s cat key = Some (ws @ sg @ ip @ pt @ fp @ rest)"
      and h: "list_all isdigit ip" "list_all isdigit fp" "ip \<noteq> [] \<or> fp \<noteq> []"
        "pt = ''.'' \<or>
        (pt = [] \<and> fp = [] \<and>
         (rest = [] \<or>
          (hd rest \<noteq> CHR ''.'' \<and> \<not> (ip = ''0'' \<and> tolower (hd rest) = CHR ''x''))))"
        "rest = [] \<or> (\<not> isdigit (hd rest) \<and> tolower (hd rest) \<noteq> CHR ''e'')"
        "x = apply_sign_rat sg (of_nat (dec_value (ip @ fp)) / 10 ^ length fp)"
    note r = e [OF w h]
    show "stod tiny (ws @ sg @ ip @ pt @ fp @ rest) =
           (if x \<noteq> 0 \<and> \<bar>x\<bar> < 2 powi (- 1022) then tiny x
            else if 2 ^ 1024 \<le> \<bar>round_binary64 x\<bar> then None
            else Some (Finite (round_binary64 x))) \<and>
         GetDouble tiny s cat key ddef =
           (if x \<noteq> 0 \<and> \<bar>x\<bar> < 2 powi (- 1022) then (case tiny x of Some v \<Rightarrow> v | None \<Rightarrow> ddef)
            else if 2 ^ 1024 \<le> \<bar>round_binary64 x\<bar> then ddef
            else Finite (round_binary64 x))"
      unfolding gd [OF g] r by simp
  qed
  have 9: "GetString s cat key = Some (ws @ sg @ rest) \<and>
       (rest = [] \<or>
        (\<not> isdigit (hd rest) \<and> \<not> lower_prefix ''inf'' rest \<and> \<not> lower_prefix ''nan'' rest \<and>
         \<not> (hd rest = CHR ''.'' \<and> tl rest \<noteq> [] \<and> isdigit (hd (tl rest))))) \<and>
       (sg = [] \<longrightarrow> rest = [] \<or> \<not> (isspace (hd rest) \<or> hd rest = CHR ''+'' \<or> hd rest = CHR ''-'')) \<longrightarrow>
         stod tiny (ws @ sg @ rest) = None \<and> GetDouble tiny s cat key ddef = ddef"
    if w: "list_all isspace ws" "sg = [] \<or> sg = ''+'' \<or> sg = ''-''"
  proof (intro impI, elim conjE)
    assume g: "GetString s cat key = Some (ws @ sg @ rest)"
      and h: "rest = [] \<or>
        (\<not> isdigit (hd rest) \<and> \<not> lower_prefix ''inf'' rest \<and> \<not> lower_prefix ''nan'' rest \<and>
         \<not> (hd rest = CHR ''.'' \<and> tl rest \<noteq> [] \<and> isdigit (hd (tl rest))))"
        "sg = [] \<longrightarrow> rest = [] \<or> \<not> (isspace (hd rest) \<or> hd rest = CHR ''+'' \<or> hd rest = CHR ''-'')"
    note f [OF w h]
    then show "stod tiny (ws @ sg @ rest) = None \<and> GetDouble tiny s cat key ddef = ddef"
      by (simp add: gd [OF g])
  qed
  show ?thesis
    apply (intro conjI)
          apply (rule 1)
         apply (rule 2)
        apply (rule 3)
       apply (rule 4)
      apply (rule impI, erule conjE, intro conjI)
         apply (rule 6; assumption)
        apply (rule 7; assumption)
       apply (rule 8; assumption)
      apply (rule 9; assumption)
     apply (rule 5)+
    done
qed

theorem getters_default_witness:
  "GetString (SetString Settings_init ''Render'' ''VSync'' ''abc'') ''Render'' ''Scale'' = None \<and>
   GetInt (SetString Settings_init ''Render'' ''VSync'' ''abc'') ''Render'' ''Scale'' 500 = 500 \<and>
   GetDouble (\<lambda>x. None) (SetString Settings_init ''Render'' ''VSync'' ''abc'') ''Render'' ''Scale'' (Finite 1) = Finite 1 \<and>
   stoi ''abc'' = None \<and> stod (\<lambda>x. None) ''abc'' = None \<and>
   GetInt (SetString Settings_init ''Render'' ''VSync'' ''abc'') ''Render'' ''VSync'' 500 = 500 \<and>
   GetDouble (\<lambda>x. None) (SetString Settings_init ''Render'' ''VSync'' ''abc'') ''Render'' ''VSync'' (Finite 1) = Finite 1 \<and>
   to_string_int 250 @ ''ms'' = ''250ms'' \<and> \<not> isdigit (hd ''ms'') \<and>
   GetInt (SetString Settings_init ''Render'' ''VSync'' ''250ms'') ''Render'' ''VSync'' 500 = 250 \<and>
   list_all isspace '' '' \<and> list_all isdigit ''250'' \<and>
   in_int_range (apply_sign ''+'' (dec_value ''250'')) \<and>
   stoi ('' '' @ ''+'' @ ''250'' @ ''ms'') = Some 250 \<and>
   GetInt (SetString Settings_init ''Render'' ''VSync'' '' +250ms'') ''Render'' ''VSync'' 500 = 250 \<and>
   list_all isdigit ''4000000000'' \<and> \<not> in_int_range (apply_sign ''-'' (dec_value ''4000000000'')) \<and>
   stoi ('''' @ ''-'' @ ''4000000000'' @ '''') = None \<and>
   GetInt (SetString Settings_init ''Render'' ''VSync'' ''-4000000000'') ''Render'' ''VSync'' 500 = 500 \<and>
   stoi ('''' @ ''-'' @ ''abc'') = None \<and> stod (\<lambda>x. None) ('''' @ ''-'' @ ''abc'') = None \<and>
   GetInt (SetString Settings_init ''Render'' ''VSync'' ''-abc'') ''Render'' ''VSync'' 500 = 500 \<and>
   GetDouble (\<lambda>x. None) (SetString Settings_init ''Render'' ''VSync'' ''-abc'') ''Render'' ''VSync'' (Finite 1) = Finite 1 \<and>
   list_all isdigit ''2'' \<and> list_all isdigit ''5'' \<and>
   apply_sign_rat ''+'' (of_nat (dec_value (''2'' @ ''5'')) / 10 ^ length ''5'') = 5 / 2 \<and>
   stod (\<lambda>x. None) ('' '' @ ''+'' @ ''2'' @ ''.'' @ ''5'' @ ''abc'') = Some (Finite (5 / 2)) \<and>
   GetDouble (\<lambda>x. None) (SetString Settings_init ''Triangle'' ''Scale'' '' +2.5abc'')
     ''Triangle'' ''Scale'' (Finite 1) = Finite (5 / 2)"
proof -
  let ?s = "SetString Settings_init ''Render'' ''VSync'' ''abc''"
  let ?t = "SetString Settings_init ''Render'' ''VSync'' ''250ms''"
  let ?u = "SetString Settings_init ''Render'' ''VSync'' '' +250ms''"
  let ?v = "SetString Settings_init ''Render'' ''VSync'' ''-4000000000''"
  let ?w = "SetString Settings_init ''Render'' ''VSync'' ''-abc''"
  let ?d = "SetString Settings_init ''Triangle'' ''Scale'' '' +2.5abc''"
  have a: "GetString ?s ''Render'' ''Scale'' = None"
    by (simp add: GetString_def SetString_def Settings_init_def store_def)
  have b: "GetString ?s ''Render'' ''VSync'' = Some ''abc''"
    by (simp add: SetString_def GetString_store)
  have c: "to_string_int 250 @ ''ms'' = ''250ms''"
    by code_simp
  have d: "GetString ?t ''Render'' ''VSync'' = Some (to_string_int 250 @ ''ms'')"
    by (simp only: c) (simp add: SetString_def GetString_store)
  have e: "\<not> isdigit (hd ''ms'')"
    by (simp add: isdigit_def)
  have gu: "GetString ?u ''Render'' ''VSync'' = Some ('' '' @ ''+'' @ ''250'' @ ''ms'')"
    by (simp add: SetString_def GetString_store)
  have gv: "GetString ?v ''Render'' ''VSync'' = Some ('''' @ ''-'' @ ''4000000000'' @ '''')"
    by (simp add: SetString_def GetString_store)
  have gw: "GetString ?w ''Render'' ''VSync'' = Some ('''' @ ''-'' @ ''abc'')"
    by (simp add: SetString_def GetString_store)
  have gd: "GetString ?d ''Triangle'' ''Scale'' = Some ('' '' @ ''+'' @ ''2'' @ ''.'' @ ''5'' @ ''abc'')"
    by (simp add: SetString_def GetString_store)
  have sp: "list_all isspace '' ''" "list_all isspace ''''"
    by (simp_all add: isspace_def)
  have dg: "list_all isdigit ''250''" "list_all isdigit ''4000000000''"
    "list_all isdigit ''2''" "list_all isdigit ''5''"
    by (simp_all add: isdigit_def)
  have r1: "in_int_range (apply_sign ''+'' (dec_value ''250''))"
    and r2: "\<not> in_int_range (apply_sign ''-'' (dec_value ''4000000000''))"
    by (simp_all add: in_int_range_def apply_sign_def dec_value_250 dec_value_4000000000)
  have v1: "(word_of_int (apply_sign ''+'' (dec_value ''250'')) :: 32 word) = 250"
    by (simp add: apply_sign_def dec_value_250)
  have x: "apply_sign_rat ''+'' (of_nat (dec_value (''2'' @ ''5'')) / 10 ^ length ''5'') = 5 / 2"
    using dec_value_25 by (simp add: apply_sign_rat_def)
  have nt: "\<not> ((5 / 2 :: rat) \<noteq> 0 \<and> \<bar>5 / 2 :: rat\<bar> < 2 powi (- 1022))"
    by (simp add: power_int_minus_divide)
  have no: "\<not> (2 ^ 1024 \<le> \<bar>round_binary64 (5 / 2)\<bar>)"
    by (simp add: round_binary64_5_2)
  note n = abc_no_number
  have i1: "GetInt ?s ''Render'' ''Scale'' 500 = 500 \<and>
            GetDouble (\<lambda>x. None) ?s ''Render'' ''Scale'' (Finite 1) = Finite 1"
    using a getters_default [where s = ?s and cat = "''Render''" and key = "''Scale''"
        and idef = 500 and tiny = "\<lambda>x. None" and ddef = "Finite 1"]
    by blast
  have i2: "GetInt ?s ''Render'' ''VSync'' 500 = 500 \<and>
            GetDouble (\<lambda>x. None) ?s ''Render'' ''VSync'' (Finite 1) = Finite 1"
    using b stoi_abc stod_abc [of "\<lambda>x. None"]
      getters_default [where s = ?s and cat = "''Render''" and key = "''VSync''"
        and idef = 500 and tiny = "\<lambda>x. None" and ddef = "Finite 1" and str = "''abc''"]
    by blast
  have i3: "GetInt ?t ''Render'' ''VSync'' 500 = 250"
    using d e
      getters_default [where s = ?t and cat = "''Render''" and key = "''VSync''"
        and idef = 500 and i = 250 and rest = "''ms''"]
    by blast
  have i4: "stoi ('' '' @ ''+'' @ ''250'' @ ''ms'') = Some 250 \<and> GetInt ?u ''Render'' ''VSync'' 500 = 250"
    using gu sp dg e r1 v1
      getters_default [where s = ?u and cat = "''Render''" and key = "''VSync''"
        and idef = 500 and ws = "'' ''" and sg = "''+''" and ds = "''250''" and rest = "''ms''"]
    by (simp only: simp_thms if_True list.simps)
  have em: "([]::string) = [] \<or> \<not> isdigit (hd [])"
    by simp
  have i5: "stoi ('''' @ ''-'' @ ''4000000000'' @ '''') = None \<and> GetInt ?v ''Render'' ''VSync'' 500 = 500"
    using gv sp dg r2 em
      getters_default [where s = ?v and cat = "''Render''" and key = "''VSync''"
        and idef = 500 and ws = "''''" and sg = "''-''" and ds = "''4000000000''" and rest = "''''"]
    by (simp only: simp_thms if_False list.simps)
  have i6: "stoi ('''' @ ''-'' @ ''abc'') = None \<and> stod (\<lambda>x. None) ('''' @ ''-'' @ ''abc'') = None \<and>
            GetInt ?w ''Render'' ''VSync'' 500 = 500 \<and>
            GetDouble (\<lambda>x. None) ?w ''Render'' ''VSync'' (Finite 1) = Finite 1"
    using gw sp n
      getters_default [where s = ?w and cat = "''Render''" and key = "''VSync''"
        and idef = 500 and tiny = "\<lambda>x. None" and ddef = "Finite 1"
        and ws = "''''" and sg = "''-''" and rest = "''abc''"]
    by (simp only: simp_thms list.simps)
  have i7: "stod (\<lambda>x. None) ('' '' @ ''+'' @ ''2'' @ ''.'' @ ''5'' @ ''abc'') = Some (Finite (5 / 2)) \<and>
            GetDouble (\<lambda>x. None) ?d ''Triangle'' ''Scale'' (Finite 1) = Finite (5 / 2)"
    using gd sp dg n x [symmetric] nt no round_binary64_5_2
      getters_default [where s = ?d and cat = "''Triangle''" and key = "''Scale''"
        and tiny = "\<lambda>x. None" and ddef = "Finite 1"
        and ws = "'' ''" and sg = "''+''" and ip = "''2''" and pt = "''.''" and fp = "''5''"
        and rest = "''abc''" and x = "5 / 2"]
    by (simp only: simp_thms if_False list.simps)
  show ?thesis
    using a b c e i1 i2 i3 i4 i5 i6 i7 sp dg r1 r2 x stoi_abc stod_abc [of "\<lambda>x. None"]
    by (simp only: simp_thms)
qed

text \<open>
  The claim as written counts a string with trailing non-numeric characters as malformed and
  promises the result of an absent key for it. The stored string \<^verbatim>\<open>250ms\<close> yields 250 where an
  absent key yields the default 500, and \<^verbatim>\<open>2.5abc\<close> yields 2.5 where an absent key yields the
  default 1.0.
\<close>

theorem malformed_number_counterexample:
  "GetInt (SetString Settings_init ''Render'' ''HotReloadIntervalMs'' ''250ms'')
     ''Render'' ''HotReloadIntervalMs'' 500 = 250 \<and>
   GetInt Settings_init ''Render'' ''HotReloadIntervalMs'' 500 = 500 \<and>
   GetDouble (\<lambda>x. None) (SetString Settings_init ''Triangle'' ''Scale'' ''2.5abc'')
     ''Triangle'' ''Scale'' (Finite 1) = Finite (5 / 2) \<and>
   GetDouble (\<lambda>x. None) Settings_init ''Triangle'' ''Scale'' (Finite 1) = Finite 1"
  by (simp add: GetInt_def GetDouble_def SetString_def GetString_store stoi_250ms stod_2_5abc)
    (simp add: GetString_def Settings_init_def)

text \<open>
  Claim C2. A value written by \<^verbatim>\<open>SetString\<close>, \<^verbatim>\<open>SetInt\<close> or \<^verbatim>\<open>SetBool\<close> is returned by the
  matching getter, whatever the default. A \<^verbatim>\<open>double\<close> written by \<^verbatim>\<open>SetDouble\<close> comes back from
  \<^verbatim>\<open>GetDouble\<close>, whatever the default, as the binary64 value nearest to its rounding to six
  decimals (infinities and NaN as themselves); for a finite value that is a binary64 value
  within \<open>10\<^sup>-\<^sup>6\<close> of the value written.
\<close>

theorem set_then_get:
  "GetString (SetString s cat key str) cat key = Some str \<and>
   GetInt (SetInt s cat key i) cat key idef = i \<and>
   GetBool (SetBool s cat key b) cat key bdef = b \<and>
   (is_double v \<longrightarrow>
      GetDouble tiny (SetDouble s cat key v) cat key ddef =
        (case v of Finite x \<Rightarrow> Finite (round_binary64 (six_decimals x)) | _ \<Rightarrow> v)) \<and>
   (is_binary64 x \<longrightarrow>
      (\<exists>y. GetDouble tiny (SetDouble s cat key (Finite x)) cat key ddef = Finite y \<and>
           is_binary64 y \<and> \<bar>y - x\<bar> \<le> 1 / 10 ^ 6))"
proof -
  have a: "GetString (SetString s cat key str) cat key = Some str"
    by (simp add: SetString_def GetString_store)
  have "stoi (to_string_int i @ []) = Some i"
    by (rule stoi_to_string_int) simp
  then have b: "GetInt (SetInt s cat key i) cat key idef = i"
    by (simp add: SetInt_def GetInt_def GetString_store)
  have c: "GetBool (SetBool s cat key b) cat key bdef = b"
    by (cases b) (simp_all add: SetBool_def GetBool_def GetString_store tolower_def)
  have d: "GetDouble tiny (SetDouble s cat key v) cat key ddef =
        (case v of Finite x \<Rightarrow> Finite (round_binary64 (six_decimals x)) | _ \<Rightarrow> v)"
    if "is_double v" for v
    using stod_to_string_double [OF that, of tiny]
    by (simp add: SetDouble_def GetDouble_def GetString_store)
  have e: "\<exists>y. GetDouble tiny (SetDouble s cat key (Finite x)) cat key ddef = Finite y \<and>
           is_binary64 y \<and> \<bar>y - x\<bar> \<le> 1 / 10 ^ 6" if "is_binary64 x"
    using d [of "Finite x"] that round_six_decimals_bound [OF that]
      round_binary64_is_binary64 [OF round_six_decimals_no_overflow [OF that]] by simp
  from a b c d e show ?thesis
    by blast
qed

theorem set_then_get_witness:
  "is_double (Finite (5 / 2)) \<and> is_binary64 (5 / 2) \<and>
   GetDouble (\<lambda>x. None) (SetDouble Settings_init ''Triangle'' ''Scale'' (Finite (5 / 2)))
     ''Triangle'' ''Scale'' (Finite 1) = Finite (5 / 2) \<and>
   GetString (SetString Settings_init ''Triangle'' ''Scale'' ''abc'') ''Triangle'' ''Scale'' = Some ''abc'' \<and>
   GetInt (SetInt Settings_init ''Render'' ''HotReloadIntervalMs'' (- 250)) ''Render''
     ''HotReloadIntervalMs'' 500 = - 250 \<and>
   GetBool (SetBool Settings_init ''Render'' ''VSync'' False) ''Render'' ''VSync'' True = False"
proof -
  have a: "is_double (Finite (5 / 2))"
    by (simp add: is_binary64_5_2)
  have r: "round_binary64 (six_decimals (5 / 2)) = 5 / 2"
    by (simp add: six_decimals_5_2 round_binary64_id is_binary64_5_2)
  show ?thesis
    using a r is_binary64_5_2
      set_then_get [of Settings_init "''Triangle''" "''Scale''" "''abc''" "- 250" 500 False True
        "Finite (5 / 2)" "\<lambda>x. None" "Finite 1" "5 / 2"]
      set_then_get [of Settings_init "''Render''" "''HotReloadIntervalMs''" "''abc''" "- 250" 500 False True
        "Finite (5 / 2)" "\<lambda>x. None" "Finite 1" "5 / 2"]
      set_then_get [of Settings_init "''Render''" "''VSync''" "''abc''" "- 250" 500 False True
        "Finite (5 / 2)" "\<lambda>x. None" "Finite 1" "5 / 2"]
    by simp
qed

text \<open>
  Claim C3. After parsing the example file of the specification,
  \<^verbatim>\<open>GetBool("Render","VSync",true)\<close> is false,
  \<^verbatim>\<open>GetInt("Render","HotReloadIntervalMs",500)\<close> is 250,
  \<^verbatim>\<open>GetDouble("Triangle","Scale",1.0)\<close> is 2.5 and
  \<^verbatim>\<open>GetDouble("Triangle","RotationSpeed",1.0)\<close> is the default 1.0.
\<close>

theorem spec_example:
  "GetBool (snd (Parse spec_example_text s)) ''Render'' ''VSync'' True = False \<and>
   GetInt (snd (Parse spec_example_text s)) ''Render'' ''HotReloadIntervalMs'' 500 = 250 \<and>
   GetDouble tiny (snd (Parse spec_example_text s)) ''Triangle'' ''Scale'' (Finite 1) = Finite (5 / 2) \<and>
   GetDouble tiny (snd (Parse spec_example_text s)) ''Triangle'' ''RotationSpeed'' (Finite 1) = Finite 1"
proof -
  let ?s = "snd (Parse spec_example_text s)"
  have a: "GetString ?s ''Render'' ''VSync'' = Some ''0''"
    by (simp add: GetString_Parse spec_example_writes last_write_def)
  have b: "GetString ?s ''Render'' ''HotReloadIntervalMs'' = Some ''250''"
    by (simp add: GetString_Parse spec_example_writes last_write_def)
  have c: "GetString ?s ''Triangle'' ''Scale'' = Some ''2.5''"
    by (simp add: GetString_Parse spec_example_writes last_write_def)
  have d: "GetString ?s ''Triangle'' ''RotationSpeed'' = None"
    by (simp add: GetString_Parse spec_example_writes last_write_def)
  show ?thesis
    by (simp add: GetBool_def GetInt_def GetDouble_def a b c d stoi_250 stod_2_5 tolower_def)
qed

subsection \<open>\<^verbatim>\<open>Load\<close>, \<^verbatim>\<open>ReloadIfChanged\<close> and \<^verbatim>\<open>Save\<close>\<close>

lemmas fs_defs = fs_exists_def last_write_time_def ifstream_open_def ofstream_open_def

lemma long_path_other:
  "long_path \<noteq> ini_path" "long_path \<noteq> other_path" "long_path \<noteq> []"
  "ini_path \<noteq> long_path" "other_path \<noteq> long_path"
proof -
  have "length long_path = 300" "length ini_path = 5" "length other_path = 1"
    by (simp_all add: long_path_def ini_path_def other_path_def)
  then show "long_path \<noteq> ini_path" "long_path \<noteq> other_path" "long_path \<noteq> []"
    "ini_path \<noteq> long_path" "other_path \<noteq> long_path"
    by auto
qed

lemma status_disk1:
  "status disk1 ini_path =
     Present \<lparr>contents = ''[Render]'' @ [CHR 0x0A] @ ''VSync=0'' @ [CHR 0x0A], mtime = 5,
              readable = True, writable = True\<rparr>"
  "status disk1 other_path = Missing" "status disk1 long_path = StatFails"
  "status disk1 [] = Missing"
  using long_path_other by (simp_all add: disk1_def) (simp_all add: ini_path_def other_path_def)

lemma paths_nonempty: "ini_path \<noteq> []" "other_path \<noteq> []" "long_path \<noteq> []"
  using long_path_other by (simp_all add: ini_path_def other_path_def)

lemma can_create_disk1: "can_create disk1 other_path" "\<not> can_create disk1 []"
  using long_path_other by (simp_all add: disk1_def) (simp add: other_path_def)

text \<open>
  Claim C7, amended. When \<^verbatim>\<open>ReloadIfChanged\<close> does not return true (it returns false, or
  leaves by the exception of a file-system call) the object is unchanged. When \<^verbatim>\<open>Load\<close> does
  not return true, the categories, keys, values and the stored time stamp are unchanged, and
  the stored path is the path given. Both return false in the cases listed: no path was
  ever loaded, the file is reported missing, the time stamp is the stored one, the file
  cannot be read; where the file-system call throws, they leave by the exception.
  \<^verbatim>\<open>ReloadIfChanged\<close> returns true only when the file was read with a time stamp that differs
  from the stored one; the document is then the parse of the file's text alone, and the
  stored time stamp the file's.
\<close>

theorem failed_reload_keeps_state:
  "(fst (ReloadIfChanged fs s) \<noteq> Returned True \<longrightarrow> snd (ReloadIfChanged fs s) = s) \<and>
   (fst (Load fs path s) \<noteq> Returned True \<longrightarrow> snd (Load fs path s) = s\<lparr>m_path := path\<rparr>) \<and>
   (m_path s = [] \<or> fs_exists fs (m_path s) = Some False \<or>
    last_write_time fs (m_path s) = Some (m_lastWriteTime s) \<or>
    (fs_exists fs (m_path s) = Some True \<and> ifstream_open fs (m_path s) = None)
      \<longrightarrow> fst (ReloadIfChanged fs s) = Returned False) \<and>
   (fs_exists fs path = Some False \<or>
    (fs_exists fs path = Some True \<and> ifstream_open fs path = None)
      \<longrightarrow> fst (Load fs path s) = Returned False) \<and>
   (fs_exists fs path = None \<longrightarrow> fst (Load fs path s) = Threw) \<and>
   (m_path s \<noteq> [] \<and> fs_exists fs (m_path s) = None \<longrightarrow> fst (ReloadIfChanged fs s) = Threw) \<and>
   (fst (ReloadIfChanged fs s) = Returned True \<longrightarrow>
      (\<exists>buf now. ifstream_open fs (m_path s) = Some buf \<and>
             last_write_time fs (m_path s) = Some now \<and> now \<noteq> m_lastWriteTime s \<and>
             snd (ReloadIfChanged fs s) =
               s\<lparr>m_data := m_data (snd (Parse buf Settings_init)), m_lastWriteTime := now\<rparr>))"
  by (cases "status fs path"; cases "status fs (m_path s)")
    (auto simp: ReloadIfChanged_def Load_def Parse_def Let_def fs_defs split: if_splits)

theorem failed_reload_keeps_state_witness:
  "fst (ReloadIfChanged disk1 Settings_init) = Returned False \<and>
   snd (ReloadIfChanged disk1 Settings_init) = Settings_init \<and>
   fst (Load disk1 other_path Settings_init) = Returned False \<and>
   snd (Load disk1 other_path Settings_init) = Settings_init\<lparr>m_path := other_path\<rparr> \<and>
   fst (Load disk1 long_path Settings_init) = Threw \<and>
   snd (Load disk1 long_path Settings_init) = Settings_init\<lparr>m_path := long_path\<rparr> \<and>
   fst (ReloadIfChanged disk1 (Settings_init\<lparr>m_path := long_path\<rparr>)) = Threw \<and>
   fst (ReloadIfChanged disk1 (Settings_init\<lparr>m_path := ini_path\<rparr>)) = Returned True \<and>
   (\<exists>buf. ifstream_open disk1 ini_path = Some buf \<and>
          last_write_time disk1 ini_path = Some 5 \<and>
          snd (ReloadIfChanged disk1 (Settings_init\<lparr>m_path := ini_path\<rparr>)) =
            \<lparr>m_data = m_data (snd (Parse buf Settings_init)), m_path = ini_path,
             m_lastWriteTime = 5\<rparr>)"
  using failed_reload_keeps_state [of disk1 Settings_init other_path]
    failed_reload_keeps_state [of disk1 "Settings_init\<lparr>m_path := ini_path\<rparr>" long_path]
    failed_reload_keeps_state [of disk1 "Settings_init\<lparr>m_path := long_path\<rparr>" long_path]
  by (simp add: fs_defs status_disk1 paths_nonempty ReloadIfChanged_def Load_def Parse_def)
    (simp add: Settings_init_def)

text \<open>
  The claim as written has the whole in-memory state unchanged after a \<^verbatim>\<open>Load\<close> that returns
  false. \<^verbatim>\<open>Load\<close> assigns \<^verbatim>\<open>m_path\<close> first: on a fresh object, loading a missing file returns
  false and leaves the object with that path stored.
\<close>

theorem failed_load_changes_path_counterexample:
  "fst (Load disk1 other_path Settings_init) = Returned False \<and>
   snd (Load disk1 other_path Settings_init) \<noteq> Settings_init \<and>
   m_path (snd (Load disk1 other_path Settings_init)) = other_path \<and>
   m_path Settings_init = []"
  by (simp add: Load_def fs_defs status_disk1) (simp add: Settings_init_def other_path_def)

text \<open>
  Claim C8. If a call of \<^verbatim>\<open>ReloadIfChanged\<close> returns true and the file's modification time
  stamp is the same at the next call, the next call returns false.
\<close>

theorem reload_twice:
  assumes "fst (ReloadIfChanged fs s) = Returned True"
    and "last_write_time fs' (m_path s) = last_write_time fs (m_path s)"
  shows "fst (ReloadIfChanged fs' (snd (ReloadIfChanged fs s))) = Returned False"
  using assms
  by (cases "status fs (m_path s)"; cases "status fs' (m_path s)")
    (auto simp: ReloadIfChanged_def Parse_def Let_def fs_defs split: if_splits)

theorem reload_twice_witness:
  "fst (ReloadIfChanged disk1 (Settings_init\<lparr>m_path := ini_path\<rparr>)) = Returned True \<and>
   last_write_time (disk1\<lparr>clock := 11\<rparr>) ini_path = last_write_time disk1 ini_path \<and>
   fst (ReloadIfChanged (disk1\<lparr>clock := 11\<rparr>)
          (snd (ReloadIfChanged disk1 (Settings_init\<lparr>m_path := ini_path\<rparr>)))) = Returned False"
proof -
  have a: "fst (ReloadIfChanged disk1 (Settings_init\<lparr>m_path := ini_path\<rparr>)) = Returned True"
    by (simp add: ReloadIfChanged_def Parse_def fs_defs status_disk1 paths_nonempty)
      (simp add: Settings_init_def)
  have b: "last_write_time (disk1\<lparr>clock := 11\<rparr>) (m_path (Settings_init\<lparr>m_path := ini_path\<rparr>)) =
           last_write_time disk1 (m_path (Settings_init\<lparr>m_path := ini_path\<rparr>))"
    by (simp add: last_write_time_def)
  show ?thesis
    using a b reload_twice [OF a b] by simp
qed

text \<open>
  Claim C9, amended. \<^verbatim>\<open>Load(path)\<close> stores the path before it checks that the file exists.
  For every non-empty path that \<^verbatim>\<open>std::filesystem::exists\<close> reports missing, \<^verbatim>\<open>Load\<close> returns
  false, \<^verbatim>\<open>Path()\<close> returns that path afterwards, and a following \<^verbatim>\<open>Save()\<close> does not leave
  through the missing-path exit: it returns false exactly when the file cannot be opened for
  writing. For every non-empty path on which \<^verbatim>\<open>std::filesystem::exists\<close> throws, \<^verbatim>\<open>Load\<close>
  leaves by the exception, with the path stored all the same.
\<close>

theorem load_missing_then_save:
  "path \<noteq> [] \<longrightarrow>
     (fs_exists fs path = Some False \<longrightarrow>
        fst (Load fs path s) = Returned False \<and>
        Path (snd (Load fs path s)) = path \<and>
        Save_exit fs (snd (Load fs path s)) \<noteq> NoPath \<and>
        (fst (Save fs cats keys (snd (Load fs path s))) = Returned False \<longleftrightarrow>
           \<not> ofstream_open fs path)) \<and>
     (fs_exists fs path = None \<longrightarrow>
        fst (Load fs path s) = Threw \<and>
        Path (snd (Load fs path s)) = path \<and>
        Save_exit fs (snd (Load fs path s)) \<noteq> NoPath)"
  by (cases "status fs path")
    (auto simp: Load_def Path_def Save_def Save_exit_def Let_def fs_defs write_file_def
      split: if_splits)

theorem load_missing_then_save_witness:
  "other_path \<noteq> [] \<and> fs_exists disk1 other_path = Some False \<and>
   fst (Load disk1 other_path Settings_init) = Returned False \<and>
   Path (snd (Load disk1 other_path Settings_init)) = other_path \<and>
   ofstream_open disk1 other_path \<and>
   fst (Save disk1 [] (\<lambda>c. []) (snd (Load disk1 other_path Settings_init))) \<noteq> Returned False \<and>
   long_path \<noteq> [] \<and> fs_exists disk1 long_path = None \<and>
   fst (Load disk1 long_path Settings_init) = Threw \<and>
   Path (snd (Load disk1 long_path Settings_init)) = long_path"
  using load_missing_then_save [of other_path disk1 Settings_init "[]" "\<lambda>c. []"]
    load_missing_then_save [of long_path disk1 Settings_init "[]" "\<lambda>c. []"]
  by (simp add: fs_defs status_disk1 paths_nonempty can_create_disk1)

text \<open>
  The claim as written covers the empty path too. There the file is missing, \<^verbatim>\<open>Load\<close>
  returns false and stores the (empty) path, and \<^verbatim>\<open>Save\<close> returns false through the
  missing-path exit, before any attempt to open a file. It also has \<^verbatim>\<open>Load\<close> return false
  for every path without a file; on a name too long to be examined \<^verbatim>\<open>Load\<close> does not return.
\<close>

theorem load_empty_path_counterexample:
  "fs_exists disk1 [] = Some False \<and> fst (Load disk1 [] Settings_init) = Returned False \<and>
   Path (snd (Load disk1 [] Settings_init)) = [] \<and>
   Save_exit disk1 (snd (Load disk1 [] Settings_init)) = NoPath \<and>
   fst (Save disk1 [] (\<lambda>c. []) (snd (Load disk1 [] Settings_init))) = Returned False \<and>
   fst (Load disk1 long_path Settings_init) = Threw"
  by (simp add: fs_defs status_disk1 Load_def Path_def Save_def Save_exit_def)

subsection \<open>What \<^verbatim>\<open>Save\<close> writes, parsed and loaded again\<close>

lemma visit_keys_map:
  "set ks \<subseteq> dom kv \<Longrightarrow> visit_keys ks kv = map (\<lambda>k. (k, the (kv k))) ks"
  by (induction ks) (auto simp: visit_keys_def map_filter_simps)

lemma visit_map:
  "set cats \<subseteq> dom d \<Longrightarrow>
   visit cats keys d = map (\<lambda>c. (c, visit_keys (keys c) (the (d c)))) cats"
  by (induction cats) (auto simp: visit_def map_filter_simps)

lemma map_of_visit_keys:
  assumes "set ks = dom kv"
  shows "map_of (visit_keys ks kv) = kv"
proof
  fix k
  have v: "visit_keys ks kv = map (\<lambda>k. (k, the (kv k))) ks"
    using assms by (intro visit_keys_map) simp
  show "map_of (visit_keys ks kv) k = kv k"
  proof (cases "k \<in> set ks")
    case True
    then show ?thesis
      using assms by (auto simp: v map_of_map_restrict)
  next
    case False
    then show ?thesis
      using assms by (auto simp: v map_of_map_restrict)
  qed
qed

lemma visit_iteration:
  assumes "visit_order cats keys d"
  shows "iteration_of (visit cats keys d) d"
proof -
  from assms have dc: "distinct cats" and sc: "set cats = dom d"
    and ks: "\<And>c kv. d c = Some kv \<Longrightarrow> distinct (keys c) \<and> set (keys c) = dom kv"
    by (auto simp: visit_order_def)
  have v: "visit cats keys d = map (\<lambda>c. (c, visit_keys (keys c) (the (d c)))) cats"
    using sc by (intro visit_map) simp
  have 1: "distinct (map fst (visit cats keys d))"
    using dc by (simp add: v comp_def)
  have 2: "list_all (\<lambda>ckv. distinct (map fst (snd ckv))) (visit cats keys d)"
  proof -
    have "distinct (map fst (visit_keys (keys c) (the (d c))))" if "c \<in> set cats" for c
    proof -
      from that sc obtain kv where kv: "d c = Some kv" by auto
      from ks [OF kv] show ?thesis
        by (simp add: kv visit_keys_map comp_def)
    qed
    then show ?thesis
      by (simp add: v list_all_iff)
  qed
  have 3: "d = map_of (map (\<lambda>ckv. (fst ckv, map_of (snd ckv))) (visit cats keys d))"
  proof
    fix c
    show "d c = map_of (map (\<lambda>ckv. (fst ckv, map_of (snd ckv))) (visit cats keys d)) c"
    proof (cases "d c")
      case None
      then have "c \<notin> set cats" using sc by auto
      then show ?thesis
        using None by (simp add: v comp_def map_of_map_restrict)
    next
      case (Some kv)
      then have "c \<in> set cats" using sc by auto
      then show ?thesis
        using Some ks [OF Some] by (simp add: v comp_def map_of_map_restrict map_of_visit_keys)
    qed
  qed
  from 1 2 3 show ?thesis
    by (simp add: iteration_of_def)
qed

lemma wf_visit:
  assumes "visit_order cats keys d" and "wf_document d"
  shows "wf_items (visit cats keys d)"
proof -
  from assms(1) have sc: "set cats = dom d"
    and ks: "\<And>c kv. d c = Some kv \<Longrightarrow> set (keys c) = dom kv"
    by (auto simp: visit_order_def)
  have v: "visit cats keys d = map (\<lambda>c. (c, visit_keys (keys c) (the (d c)))) cats"
    using sc by (intro visit_map) simp
  have "wf_category c \<and> visit_keys (keys c) (the (d c)) \<noteq> [] \<and>
        list_all (\<lambda>kv. wf_key (fst kv) \<and> wf_value (snd kv)) (visit_keys (keys c) (the (d c)))"
    if "c \<in> set cats" for c
  proof -
    from that sc obtain kv where kv: "d c = Some kv" by auto
    from assms(2) kv have wc: "wf_category c" and ne: "kv \<noteq> Map.empty"
      and wk: "\<And>k v. kv k = Some v \<Longrightarrow> wf_key k \<and> wf_value v"
      by (auto simp: wf_document_def)
    have vk: "visit_keys (keys c) kv = map (\<lambda>k. (k, the (kv k))) (keys c)"
      using ks [OF kv] by (intro visit_keys_map) simp
    from ne obtain k where "k \<in> dom kv"
      by (metis domIff ext)
    with ks [OF kv] have "keys c \<noteq> []"
      by auto
    moreover have "wf_key k \<and> wf_value (the (kv k))" if "k \<in> set (keys c)" for k
    proof -
      from that ks [OF kv] obtain v where "kv k = Some v" by auto
      with wk [of k v] show ?thesis by simp
    qed
    ultimately show ?thesis
      using wc by (simp add: kv vk list_all_iff)
  qed
  then show ?thesis
    by (simp add: v wf_items_def list_all_iff)
qed

lemma sample_visit:
  "visit sample_cats sample_keys sample_doc =
     [(''Triangle'', [(''Scale'', ''2.500000'')]),
      (''Render'', [(''VSync'', ''0''), (''HotReloadIntervalMs'', ''250'')])]"
  by (simp add: visit_def visit_keys_def sample_cats_def sample_keys_def sample_doc_def map_filter_simps)

lemma sample_visit_order: "visit_order sample_cats sample_keys (m_data sample_settings)"
  by (auto simp: visit_order_def sample_settings_def sample_cats_def sample_keys_def sample_doc_def
      split: if_splits)

lemma sample_wf_document: "wf_document (m_data sample_settings)"
proof -
  have c: "wf_category ''Render''" "wf_category ''Triangle''"
    by code_simp+
  have k: "wf_key ''VSync''" "wf_key ''HotReloadIntervalMs''" "wf_key ''Scale''"
    by code_simp+
  have v: "wf_value ''0''" "wf_value ''250''" "wf_value ''2.500000''"
    by code_simp+
  have n: "[''VSync'' \<mapsto> ''0'', ''HotReloadIntervalMs'' \<mapsto> ''250''] \<noteq> Map.empty"
    "[''Scale'' \<mapsto> ''2.500000''] \<noteq> Map.empty"
    by (metis fun_upd_same option.distinct(1))+
  show ?thesis
    unfolding wf_document_def sample_settings_def Settings.simps sample_doc_def
    using c k v n by (auto split: if_splits)
qed

lemma sample_saved: "fst (Save disk1 sample_cats sample_keys sample_settings) = Returned True"
  by (simp add: Save_def Save_exit_def sample_settings_def fs_defs status_disk1 can_create_disk1
      paths_nonempty write_file_def Let_def)

text \<open>
  Claim C10. Take a document in which every category has a key, every category name and key
  is non-empty, without \<^verbatim>\<open>;\<close>, \<^verbatim>\<open>#\<close>, newline and leading or trailing whitespace, every key is
  without \<^verbatim>\<open>=\<close> and does not start with \<^verbatim>\<open>[\<close>, and every value is without \<^verbatim>\<open>;\<close>, \<^verbatim>\<open>#\<close>,
  newline and leading or trailing whitespace. Whatever the order in which \<^verbatim>\<open>Save\<close> visits the
  container, when \<^verbatim>\<open>Save\<close> returns true the file at the stored path holds the text streamed
  from the document, \<^verbatim>\<open>Parse\<close> of the file's text yields exactly the same document, and so
  does \<^verbatim>\<open>Load\<close> of the file when it can be read.
\<close>

theorem save_then_parse:
  assumes "visit_order cats keys (m_data s)"
    and "wf_document (m_data s)"
    and "fst (Save fs cats keys s) = Returned True"
  shows "\<exists>f. status (snd (snd (Save fs cats keys s))) (m_path s) = Present f \<and>
             contents f = save_text (visit cats keys (m_data s)) \<and>
             m_data (snd (Parse (contents f) s')) = m_data s \<and>
             (readable f \<longrightarrow>
                fst (Load (snd (snd (Save fs cats keys s))) (m_path s) s') = Returned True \<and>
                m_data (snd (Load (snd (snd (Save fs cats keys s))) (m_path s) s')) = m_data s)"
proof -
  let ?text = "save_text (visit cats keys (m_data s))"
  let ?fs = "write_file fs (m_path s) ?text"
  have p: "m_data (snd (Parse ?text s')) = m_data s" for s'
    using visit_iteration [OF assms(1)] wf_visit [OF assms(1,2)] by (rule parse_save_text)
  from assms(3) have ex: "Save_exit fs s = Saved"
    by (auto simp: Save_def split: save_exit.splits)
  then have fs': "snd (snd (Save fs cats keys s)) = ?fs"
    by (cases "status fs (m_path s)") (simp_all add: Save_def Let_def fs_defs write_file_def)
  from assms(3) ex obtain f where f: "status ?fs (m_path s) = Present f" and c: "contents f = ?text"
    by (cases "status fs (m_path s)") (auto simp: Save_def Let_def fs_defs write_file_def)
  have l: "fst (Load ?fs (m_path s) s') = Returned True \<and>
           m_data (snd (Load ?fs (m_path s) s')) = m_data s" if "readable f"
    using that f c p [of "s'\<lparr>m_path := m_path s\<rparr>"]
    by (simp add: Load_def fs_defs Let_def Parse_def)
  show ?thesis
    unfolding fs' using f c p [of s'] l by auto
qed

theorem save_then_parse_witness:
  "visit_order sample_cats sample_keys (m_data sample_settings) \<and>
   wf_document (m_data sample_settings) \<and>
   fst (Save disk1 sample_cats sample_keys sample_settings) = Returned True \<and>
   (\<exists>f. status (snd (snd (Save disk1 sample_cats sample_keys sample_settings))) other_path = Present f \<and>
        readable f \<and>
        m_data (snd (Parse (contents f) Settings_init)) = sample_doc \<and>
        fst (Load (snd (snd (Save disk1 sample_cats sample_keys sample_settings))) other_path
               Settings_init) = Returned True \<and>
        m_data (snd (Load (snd (snd (Save disk1 sample_cats sample_keys sample_settings))) other_path
               Settings_init)) = sample_doc)"
proof -
  let ?fs = "snd (snd (Save disk1 sample_cats sample_keys sample_settings))"
  from save_then_parse [OF sample_visit_order sample_wf_document sample_saved, of Settings_init]
  obtain f where f: "status ?fs (m_path sample_settings) = Present f"
    and p: "m_data (snd (Parse (contents f) Settings_init)) = m_data sample_settings"
    and l: "readable f \<longrightarrow>
                fst (Load ?fs (m_path sample_settings) Settings_init) = Returned True \<and>
                m_data (snd (Load ?fs (m_path sample_settings) Settings_init)) = m_data sample_settings"
    by blast
  have "status ?fs other_path =
     Present \<lparr>contents = save_text (visit sample_cats sample_keys sample_doc), mtime = 9,
              readable = True, writable = True\<rparr>"
    by (simp add: Save_def Save_exit_def sample_settings_def fs_defs status_disk1 can_create_disk1
      paths_nonempty write_file_def Let_def) (simp add: disk1_def)
  with f have r: "readable f"
    by (simp add: sample_settings_def)
  show ?thesis
    using sample_visit_order sample_wf_document sample_saved f p l r
    by (auto simp: sample_settings_def)
qed

end
